theory Spec2Isabelle
  imports Main "HOL-Library.Sublist"
begin

section \<open>Values, objects and the state of the module\<close>

text \<open>
  The file \<^verbatim>\<open>src/vue3-reactive.js\<close> keeps its state in four module variables:
  the two weak maps \<^verbatim>\<open>toProxy\<close> and \<^verbatim>\<open>toRaw\<close>, the array
  \<^verbatim>\<open>activeEffectStack\<close> and the weak map \<^verbatim>\<open>targetMap\<close>. Objects live in
  a heap of addresses; \<^verbatim>\<open>new Proxy(target, baseHandler)\<close> allocates a fresh address that
  holds a proxy over \<open>target\<close>. A plain object is a finite map of its own data
  properties (accessors and non-writable properties are left out).

  Objects are object literals: their prototype is an unmodified \<^verbatim>\<open>Object.prototype\<close>.

  Values are data. JavaScript numbers are floating point; the model keeps the integers
  and \<open>NaN\<close>, the one value that strict equality separates from itself. Functions are
  not values of the model: no object and no variable holds one, so no value can be
  called. An effect handle is an index into the closures of the state.
\<close>

type_synonym addr = nat
type_synonym key = string
type_synonym vname = string
type_synonym eff = nat
type_synonym fnid = nat

datatype val =
    Undefined
  | Null
  | Bool bool
  | Num int
  | NaN
  | Str string
  | Ref addr

datatype obj =
    Plain "key \<rightharpoonup> val"
  | Proxy addr

datatype exn = TypeError | Thrown val

text \<open>
  A call event records one execution of the line \<^verbatim>\<open>fn()\<close> in \<^verbatim>\<open>run\<close>: the effect
  handle that runs, the user callback it wraps and the number of handles on the stack at
  that moment. The list of events is a ghost field: the code never reads it.
\<close>

record event =
  ev_effect :: eff
  ev_fn :: fnid
  ev_depth :: nat

record state =
  heap :: "addr \<rightharpoonup> obj"
  nxt :: addr
  toProxy :: "addr \<rightharpoonup> addr"
  toRaw :: "addr \<rightharpoonup> addr"
  activeEffectStack :: "eff list"
  targetMap :: "addr \<rightharpoonup> (key \<rightharpoonup> eff list)"
  effs :: "fnid list"
  vars :: "vname \<rightharpoonup> val"
  console :: "string list"
  calls :: "event list"

text \<open>
  Besides the four module variables, the state holds the closures made by
  \<^verbatim>\<open>createReactiveEffect\<close> (handle \<open>i\<close> wraps the callback \<open>effs ! i\<close>), the variables
  of the user code, the lines written by \<^verbatim>\<open>console.log\<close> and the call events. Weak maps
  are maps: garbage collection is not observable by the code.
\<close>

text \<open>
  An outcome \<open>Some (s, Inr v)\<close> is a return of \<open>v\<close> in state \<open>s\<close>, \<open>Some (s, Inl x)\<close> is
  the exception \<open>x\<close> thrown in state \<open>s\<close>, and \<open>None\<close> says nothing: the fuel ran out
  or the step lies outside the model.
\<close>

type_synonym outcome = "(state \<times> (exn + val)) option"

definition init :: state where
  "init = \<lparr>heap = Map.empty, nxt = 0, toProxy = Map.empty, toRaw = Map.empty,
     activeEffectStack = [], targetMap = Map.empty, effs = [], vars = Map.empty,
     console = [], calls = []\<rparr>"

subsection \<open>User code\<close>

text \<open>
  A user callback is a script of the statements it executes against the library and
  the heap. Variables are shared by all callbacks and the host script, like the
  variables of the enclosing scope of the closures. A program \<open>P\<close> gives every callback
  identifier its body.
\<close>

datatype expr = Lit val | Var vname

datatype op =
    Reactive vname expr
  | GetProp vname expr key
  | SetProp expr key expr
  | DelProp expr key
  | Effect vname fnid
  | Throw expr

type_synonym program = "fnid \<Rightarrow> op list"

fun eval :: "state \<Rightarrow> expr \<Rightarrow> val" where
  "eval s (Lit v) = v"
| "eval s (Var x) = (case vars s x of None \<Rightarrow> Undefined | Some v \<Rightarrow> v)"

definition assign :: "vname \<Rightarrow> val \<Rightarrow> state \<Rightarrow> state" where
  "assign x v s = s\<lparr>vars := (vars s)(x \<mapsto> v)\<rparr>"

section \<open>The interception layer\<close>

definition isObject :: "val \<Rightarrow> bool" where
  "isObject value = (case value of Ref a \<Rightarrow> True | _ \<Rightarrow> False)"

text \<open>The operator \<^verbatim>\<open>!==\<close> on the values of the model.\<close>

definition strict_neq :: "val \<Rightarrow> val \<Rightarrow> bool" where
  "strict_neq a b = (a \<noteq> b \<or> a = NaN)"

definition props :: "state \<Rightarrow> addr \<Rightarrow> key \<rightharpoonup> val" where
  "props s a = (case heap s a of Some (Plain m) \<Rightarrow> m | _ \<Rightarrow> Map.empty)"

text \<open>
  The engine is not part of the repository. What the code uses of it is written here
  from ECMAScript: the names of the properties of \<^verbatim>\<open>Object.prototype\<close> (Annex B
  included), which every object literal inherits. All but \<^verbatim>\<open>__proto__\<close> are writable
  data properties whose values are built-in functions; \<^verbatim>\<open>__proto__\<close> is an accessor.
\<close>

definition Object_prototype_names :: "key list" where
  "Object_prototype_names =
     [''constructor'', ''__defineGetter__'', ''__defineSetter__'', ''hasOwnProperty'',
      ''__lookupGetter__'', ''__lookupSetter__'', ''isPrototypeOf'',
      ''propertyIsEnumerable'', ''toString'', ''valueOf'', ''__proto__'',
      ''toLocaleString'']"

definition inherited :: "key \<Rightarrow> bool" where
  "inherited key = (key \<in> set Object_prototype_names)"

text \<open>
  \<^verbatim>\<open>hasKey\<close> (lines 29-31) calls \<^verbatim>\<open>target.hasOwnProperty(key)\<close>. The method is
  looked up on the target: an object without an own property of that name finds the
  built-in, which tests for an own property; an own property of that name hides the
  built-in, and since no value of the model can be called, the call throws
  \<^verbatim>\<open>TypeError\<close>.
\<close>

definition hasKey :: "state \<Rightarrow> addr \<Rightarrow> key \<Rightarrow> exn + bool" where
  "hasKey s target key =
     (case props s target ''hasOwnProperty'' of
        None \<Rightarrow> Inr (props s target key \<noteq> None)
      | Some h \<Rightarrow> Inl TypeError)"

text \<open>
  \<^verbatim>\<open>Reflect.get\<close> gives the value of an own property, and \<^verbatim>\<open>undefined\<close> for a key
  that is neither owned nor inherited. For an inherited name that the object does not
  own, the result is a built-in function or the prototype object; neither is a value of
  the model, so the model gives no result there.
\<close>

definition Reflect_get :: "state \<Rightarrow> addr \<Rightarrow> key \<Rightarrow> val option" where
  "Reflect_get s target key =
     (case props s target key of
        Some v \<Rightarrow> Some v
      | None \<Rightarrow> if inherited key then None else Some Undefined)"

text \<open>
  \<^verbatim>\<open>Reflect.set\<close> writes the own property, creating it when the key is not owned. The
  traps of the proxy that receives the write are not re-entered: the handler defines
  none for \<^verbatim>\<open>defineProperty\<close>. A key \<^verbatim>\<open>__proto__\<close> that is not owned reaches the
  inherited setter instead: it ignores a primitive value, and with an object or
  \<^verbatim>\<open>null\<close> it changes the prototype, which the model does not follow.
\<close>

definition Reflect_set :: "state \<Rightarrow> addr \<Rightarrow> key \<Rightarrow> val \<Rightarrow> (state \<times> bool) option" where
  "Reflect_set s target key value =
     (case heap s target of
        Some (Plain m) \<Rightarrow>
          if key = ''__proto__'' \<and> m key = None then
            (case value of Ref a \<Rightarrow> None | Null \<Rightarrow> None | _ \<Rightarrow> Some (s, True))
          else Some (s\<lparr>heap := (heap s)(target \<mapsto> Plain (m(key \<mapsto> value)))\<rparr>, True)
      | _ \<Rightarrow> Some (s, False))"

definition Reflect_deleteProperty :: "state \<Rightarrow> addr \<Rightarrow> key \<Rightarrow> state \<times> bool" where
  "Reflect_deleteProperty s target key =
     (case heap s target of
        Some (Plain m) \<Rightarrow> (s\<lparr>heap := (heap s)(target \<mapsto> Plain (m(key := None)))\<rparr>, True)
      | _ \<Rightarrow> (s, True))"

text \<open>
  \<^verbatim>\<open>createReactiveObject\<close> (lines 37-85): a non-object is returned as it is, then
  the two registries are consulted in the order of the source, and only then a proxy is
  allocated and registered in both.
\<close>

definition createReactiveObject :: "state \<Rightarrow> val \<Rightarrow> state \<times> val" where
  "createReactiveObject s target =
     (case target of
        Ref a \<Rightarrow>
          (case toProxy s a of
             Some observed \<Rightarrow> (s, Ref observed)
           | None \<Rightarrow>
               if toRaw s a \<noteq> None then (s, target)
               else
                 let observed = nxt s
                 in (s\<lparr>heap := (heap s)(observed \<mapsto> Proxy a),
                        nxt := Suc (nxt s),
                        toProxy := (toProxy s)(a \<mapsto> observed),
                        toRaw := (toRaw s)(observed \<mapsto> a)\<rparr>,
                     Ref observed))
      | _ \<Rightarrow> (s, target))"

definition reactive :: "state \<Rightarrow> val \<Rightarrow> state \<times> val" where
  "reactive s target = createReactiveObject s target"

section \<open>The dependency graph\<close>

definition current :: "state \<Rightarrow> eff option" where
  "current s = (if activeEffectStack s = [] then None else Some (last (activeEffectStack s)))"

definition deps_of :: "state \<Rightarrow> addr \<Rightarrow> key \<Rightarrow> eff list" where
  "deps_of s target key =
     (case targetMap s target of
        None \<Rightarrow> []
      | Some depsMap \<Rightarrow> (case depsMap key of None \<Rightarrow> [] | Some deps \<Rightarrow> deps))"

text \<open>
  \<^verbatim>\<open>track\<close> (lines 142-157). A \<^verbatim>\<open>Set\<close> keeps its members in insertion order, so
  a dependency set is a list to which a new member is appended.
\<close>

definition track :: "state \<Rightarrow> addr \<Rightarrow> key \<Rightarrow> state" where
  "track s target key =
     (case current s of
        None \<Rightarrow> s
      | Some effect \<Rightarrow>
          let depsMap = (case targetMap s target of None \<Rightarrow> Map.empty | Some m \<Rightarrow> m);
              deps = (case depsMap key of None \<Rightarrow> [] | Some d \<Rightarrow> d);
              deps' = (if effect \<in> set deps then deps else deps @ [effect])
          in s\<lparr>targetMap := (targetMap s)(target \<mapsto> depsMap(key \<mapsto> deps'))\<rparr>)"

text \<open>The \<^verbatim>\<open>get\<close> trap of \<^verbatim>\<open>baseHandler\<close> (lines 52-61).\<close>

definition proxy_get :: "state \<Rightarrow> addr \<Rightarrow> key \<Rightarrow> (state \<times> val) option" where
  "proxy_get s target key =
     (case Reflect_get s target key of
        None \<Rightarrow> None
      | Some result \<Rightarrow>
          let s1 = track s target key
          in Some (if isObject result then reactive s1 result else (s1, result)))"

text \<open>The \<^verbatim>\<open>deleteProperty\<close> trap (lines 75-79).\<close>

definition proxy_deleteProperty :: "state \<Rightarrow> addr \<Rightarrow> key \<Rightarrow> state \<times> bool" where
  "proxy_deleteProperty s target key =
     (let (s1, result) = Reflect_deleteProperty s target key
      in (s1\<lparr>console := console s1 @ [''delete'']\<rparr>, result))"

text \<open>
  \<^verbatim>\<open>createReactiveEffect\<close> (lines 106-111) allocates the closure \<open>effect\<close> and returns
  it: the new handle.
\<close>

definition createReactiveEffect :: "state \<Rightarrow> fnid \<Rightarrow> state \<times> eff" where
  "createReactiveEffect s fn = (s\<lparr>effs := effs s @ [fn]\<rparr>, length (effs s))"

section \<open>Running computations\<close>

definition push :: "eff \<Rightarrow> fnid \<Rightarrow> state \<Rightarrow> state" where
  "push effect fn s =
     s\<lparr>activeEffectStack := activeEffectStack s @ [effect],
       calls := calls s @ [\<lparr>ev_effect = effect, ev_fn = fn,
                            ev_depth = Suc (length (activeEffectStack s))\<rparr>]\<rparr>"

definition pop :: "state \<Rightarrow> state" where
  "pop s = s\<lparr>activeEffectStack := butlast (activeEffectStack s)\<rparr>"

text \<open>
  The remaining functions call one another: a callback writes through a proxy, the
  \<^verbatim>\<open>set\<close> trap calls \<^verbatim>\<open>trigger\<close>, which calls effect handles, which run
  callbacks, which write through proxies. The cycle is cut at the call of an effect
  handle: each function takes as \<open>call\<close> what calling a handle does, and \<open>invoke\<close>
  closes the cycle by recursion on fuel. The fuel \<open>n\<close> also bounds the steps of each
  \<^verbatim>\<open>forEach\<close>.
\<close>

type_synonym caller = "eff \<Rightarrow> state \<Rightarrow> outcome"

text \<open>
  \<^verbatim>\<open>deps.forEach(effect => { effect() })\<close> (lines 169-171) walks the live set: members
  added while it runs are visited too. The set stored for a key is never replaced by
  another one, so each step reads it from the state.
\<close>

fun forEach :: "caller \<Rightarrow> nat \<Rightarrow> addr \<Rightarrow> key \<Rightarrow> nat \<Rightarrow> state \<Rightarrow> outcome" where
  "forEach call 0 target key i s =
     (if i < length (deps_of s target key) then None else Some (s, Inr Undefined))"
| "forEach call (Suc n) target key i s =
     (if i < length (deps_of s target key) then
        (case call (deps_of s target key ! i) s of
           None \<Rightarrow> None
         | Some (s1, Inl x) \<Rightarrow> Some (s1, Inl x)
         | Some (s1, Inr v) \<Rightarrow> forEach call n target key (Suc i) s1)
      else Some (s, Inr Undefined))"

text \<open>\<^verbatim>\<open>trigger\<close> (lines 164-174).\<close>

definition trigger :: "caller \<Rightarrow> nat \<Rightarrow> addr \<Rightarrow> string \<Rightarrow> key \<Rightarrow> state \<Rightarrow> outcome" where
  "trigger call n target type key s =
     (case targetMap s target of
        None \<Rightarrow> Some (s, Inr Undefined)
      | Some depsMap \<Rightarrow>
          (case depsMap key of
             None \<Rightarrow> Some (s, Inr Undefined)
           | Some deps \<Rightarrow> forEach call n target key 0 s))"

text \<open>
  The \<^verbatim>\<open>set\<close> trap of \<^verbatim>\<open>baseHandler\<close> (lines 62-74). \<^verbatim>\<open>hasKey\<close> comes first: when
  it throws, nothing has been written and nothing is triggered.
\<close>

definition proxy_set :: "caller \<Rightarrow> nat \<Rightarrow> addr \<Rightarrow> key \<Rightarrow> val \<Rightarrow> state \<Rightarrow> outcome" where
  "proxy_set call n target key value s =
     (case hasKey s target key of
        Inl x \<Rightarrow> Some (s, Inl x)
      | Inr isOwn \<Rightarrow>
          (let oldValue = Reflect_get s target key
           in (case Reflect_set s target key value of
                 None \<Rightarrow> None
               | Some (s1, result) \<Rightarrow>
                   (if \<not> isOwn then
                      (case trigger call n target ''add'' key s1 of
                         None \<Rightarrow> None
                       | Some (s2, Inl x) \<Rightarrow> Some (s2, Inl x)
                       | Some (s2, Inr v) \<Rightarrow> Some (s2, Inr (Bool result)))
                    else
                      (case oldValue of
                         None \<Rightarrow> None
                       | Some old \<Rightarrow>
                           (if strict_neq old value then
                              (case trigger call n target ''set'' key s1 of
                                 None \<Rightarrow> None
                               | Some (s2, Inl x) \<Rightarrow> Some (s2, Inl x)
                               | Some (s2, Inr v) \<Rightarrow> Some (s2, Inr (Bool result)))
                            else Some (s1, Inr (Bool result))))))))"

text \<open>
  \<^verbatim>\<open>effect\<close> (lines 96-100): the handle is created and called; the function has no
  \<^verbatim>\<open>return\<close> statement, so what it returns is \<^verbatim>\<open>undefined\<close>.
\<close>

definition effect :: "caller \<Rightarrow> fnid \<Rightarrow> state \<Rightarrow> outcome" where
  "effect call fn s =
     (let (s1, e) = createReactiveEffect s fn
      in (case call e s1 of
            None \<Rightarrow> None
          | Some (s2, Inl x) \<Rightarrow> Some (s2, Inl x)
          | Some (s2, Inr v) \<Rightarrow> Some (s2, Inr Undefined)))"

text \<open>
  The statements of user code. A property access on a proxy goes to its trap, on a plain
  object to the object, and on \<^verbatim>\<open>undefined\<close> or \<^verbatim>\<open>null\<close> it throws. The properties of
  the other primitive values are outside the model.
\<close>

fun exec_op :: "caller \<Rightarrow> nat \<Rightarrow> op \<Rightarrow> state \<Rightarrow> outcome" where
  "exec_op call n (Reactive x e) s =
     (let (s1, r) = reactive s (eval s e) in Some (assign x r s1, Inr Undefined))"
| "exec_op call n (GetProp x e key) s =
     (case eval s e of
        Ref a \<Rightarrow>
          (case heap s a of
             Some (Proxy target) \<Rightarrow>
               (case proxy_get s target key of
                  None \<Rightarrow> None
                | Some (s1, r) \<Rightarrow> Some (assign x r s1, Inr Undefined))
           | _ \<Rightarrow>
               (case Reflect_get s a key of
                  None \<Rightarrow> None
                | Some r \<Rightarrow> Some (assign x r s, Inr Undefined)))
      | Undefined \<Rightarrow> Some (s, Inl TypeError)
      | Null \<Rightarrow> Some (s, Inl TypeError)
      | _ \<Rightarrow> None)"
| "exec_op call n (SetProp e key e') s =
     (case eval s e of
        Ref a \<Rightarrow>
          (case heap s a of
             Some (Proxy target) \<Rightarrow>
               (case proxy_set call n target key (eval s e') s of
                  None \<Rightarrow> None
                | Some (s1, Inl x) \<Rightarrow> Some (s1, Inl x)
                | Some (s1, Inr v) \<Rightarrow> Some (s1, Inr Undefined))
           | _ \<Rightarrow>
               (case Reflect_set s a key (eval s e') of
                  None \<Rightarrow> None
                | Some (s1, r) \<Rightarrow> Some (s1, Inr Undefined)))
      | Undefined \<Rightarrow> Some (s, Inl TypeError)
      | Null \<Rightarrow> Some (s, Inl TypeError)
      | _ \<Rightarrow> None)"
| "exec_op call n (DelProp e key) s =
     (case eval s e of
        Ref a \<Rightarrow>
          (case heap s a of
             Some (Proxy target) \<Rightarrow>
               Some (fst (proxy_deleteProperty s target key), Inr Undefined)
           | _ \<Rightarrow> Some (fst (Reflect_deleteProperty s a key), Inr Undefined))
      | Undefined \<Rightarrow> Some (s, Inl TypeError)
      | Null \<Rightarrow> Some (s, Inl TypeError)
      | _ \<Rightarrow> None)"
| "exec_op call n (Effect x fn) s =
     (case effect call fn s of
        None \<Rightarrow> None
      | Some (s1, Inl x) \<Rightarrow> Some (s1, Inl x)
      | Some (s1, Inr v) \<Rightarrow> Some (assign x v s1, Inr Undefined))"
| "exec_op call n (Throw e) s = Some (s, Inl (Thrown (eval s e)))"

fun exec_ops :: "caller \<Rightarrow> nat \<Rightarrow> op list \<Rightarrow> state \<Rightarrow> outcome" where
  "exec_ops call n [] s = Some (s, Inr Undefined)"
| "exec_ops call n (c # cs) s =
     (case exec_op call n c s of
        None \<Rightarrow> None
      | Some (s1, Inl x) \<Rightarrow> Some (s1, Inl x)
      | Some (s1, Inr v) \<Rightarrow> exec_ops call n cs s1)"

text \<open>
  \<^verbatim>\<open>run\<close> (lines 117-125): \<^verbatim>\<open>try { push; fn() } finally { pop }\<close>. The result of
  \<^verbatim>\<open>fn()\<close> is dropped and \<open>run\<close> returns \<^verbatim>\<open>undefined\<close>.
\<close>

definition run :: "caller \<Rightarrow> nat \<Rightarrow> program \<Rightarrow> eff \<Rightarrow> fnid \<Rightarrow> state \<Rightarrow> outcome" where
  "run call n P e fn s =
     (case exec_ops call n (P fn) (push e fn s) of
        None \<Rightarrow> None
      | Some (s1, Inl x) \<Rightarrow> Some (pop s1, Inl x)
      | Some (s1, Inr v) \<Rightarrow> Some (pop s1, Inr Undefined))"

text \<open>
  Calling the handle made by \<^verbatim>\<open>createReactiveEffect\<close>:
  \<^verbatim>\<open>function () { return run(effect, fn) }\<close>, with one unit of fuel for the call.
\<close>

primrec invoke :: "nat \<Rightarrow> program \<Rightarrow> eff \<Rightarrow> state \<Rightarrow> outcome" where
  "invoke 0 P e s = None"
| "invoke (Suc n) P e s =
     (if e < length (effs s) then run (invoke n P) n P e (effs s ! e) s
      else Some (s, Inl TypeError))"

section \<open>Invariants and observations\<close>

text \<open>
  \<open>ok s s'\<close> relates the state before an operation to the state after it: the stack
  of active computations is the same, the new call events all lie deeper than the stack
  of \<open>s\<close>, and every dependency set has only grown at its end, without duplicates.
\<close>

definition ok :: "state \<Rightarrow> state \<Rightarrow> bool" where
  "ok s s' \<longleftrightarrow>
     activeEffectStack s' = activeEffectStack s \<and>
     (\<exists>evs. calls s' = calls s @ evs \<and>
        (\<forall>ev \<in> set evs. length (activeEffectStack s) < ev_depth ev)) \<and>
     (\<forall>t k. prefix (deps_of s t k) (deps_of s' t k)) \<and>
     (\<forall>t k. distinct (deps_of s t k) \<longrightarrow> distinct (deps_of s' t k))"

definition sound :: "caller \<Rightarrow> bool" where
  "sound call \<longleftrightarrow> (\<forall>e s s' r. call e s = Some (s', r) \<longrightarrow> ok s s')"

text \<open>
  The registries of a well-formed state mirror each other, a registered proxy is a proxy
  in the heap and is neither wrapped itself nor the target of another proxy, and the
  allocation pointer lies above every address in use.
\<close>

definition wf :: "state \<Rightarrow> bool" where
  "wf s \<longleftrightarrow>
     (\<forall>a p. toProxy s a = Some p \<longleftrightarrow> toRaw s p = Some a) \<and>
     (\<forall>p a. toRaw s p = Some a \<longrightarrow> toProxy s p = None \<and> toRaw s a = None) \<and>
     (\<forall>p a. heap s p = Some (Proxy a) \<longleftrightarrow> toRaw s p = Some a) \<and>
     (\<forall>a. heap s a \<noteq> None \<or> toProxy s a \<noteq> None \<or> toRaw s a \<noteq> None \<longrightarrow> a < nxt s)"

text \<open>
  A value is allocated when it is not a dangling reference. In a good state the
  registries are well-formed and neither the variables, nor the objects, nor the
  literals of the program hold a dangling reference; \<open>keeps\<close> is the contract by which
  calling a handle preserves this.
\<close>

definition allocated :: "state \<Rightarrow> val \<Rightarrow> bool" where
  "allocated s v = (case v of Ref a \<Rightarrow> heap s a \<noteq> None | _ \<Rightarrow> True)"

definition heap_closed :: "state \<Rightarrow> bool" where
  "heap_closed s \<longleftrightarrow>
     (\<forall>x v. vars s x = Some v \<longrightarrow> allocated s v) \<and>
     (\<forall>t m k v. heap s t = Some (Plain m) \<and> m k = Some v \<longrightarrow> allocated s v)"

fun expr_ok :: "state \<Rightarrow> expr \<Rightarrow> bool" where
  "expr_ok s (Lit v) = allocated s v"
| "expr_ok s (Var x) = True"

fun op_ok :: "state \<Rightarrow> op \<Rightarrow> bool" where
  "op_ok s (Reactive x e) = expr_ok s e"
| "op_ok s (GetProp x e key) = expr_ok s e"
| "op_ok s (SetProp e key e') = (expr_ok s e \<and> expr_ok s e')"
| "op_ok s (DelProp e key) = expr_ok s e"
| "op_ok s (Effect x fn) = True"
| "op_ok s (Throw e) = expr_ok s e"

definition good :: "program \<Rightarrow> state \<Rightarrow> bool" where
  "good P s \<longleftrightarrow> wf s \<and> heap_closed s \<and> (\<forall>fn. list_all (op_ok s) (P fn))"

definition grows :: "state \<Rightarrow> state \<Rightarrow> bool" where
  "grows s s' \<longleftrightarrow> (\<forall>a. heap s a \<noteq> None \<longrightarrow> heap s' a \<noteq> None)"

definition keeps :: "program \<Rightarrow> caller \<Rightarrow> bool" where
  "keeps P call \<longleftrightarrow>
     (\<forall>e s s' r. good P s \<and> call e s = Some (s', r) \<longrightarrow> good P s' \<and> grows s s')"

text \<open>
  One way of calling handles extends another when it gives the same outcome wherever the
  other gives one.
\<close>

definition le_call :: "caller \<Rightarrow> caller \<Rightarrow> bool" where
  "le_call c c' \<longleftrightarrow> (\<forall>e s r. c e s = Some r \<longrightarrow> c' e s = Some r)"

text \<open>
  A write of \<open>v\<close> under \<open>k\<close> changes the raw object when it does not own \<open>k\<close> or owns it
  with a value that is \<^verbatim>\<open>!==\<close> to \<open>v\<close>.
\<close>

definition changes :: "state \<Rightarrow> addr \<Rightarrow> key \<Rightarrow> val \<Rightarrow> bool" where
  "changes s t k v = (case props s t k of None \<Rightarrow> True | Some old \<Rightarrow> strict_neq old v)"

text \<open>
  The code never removes a member from a dependency set and never replaces a set, so a
  state reached after \<open>s0\<close> holds every dependency set of \<open>s0\<close> as an initial part of
  its own.
\<close>

definition later :: "state \<Rightarrow> state \<Rightarrow> bool" where
  "later s0 s \<longleftrightarrow> (\<forall>t k. prefix (deps_of s0 t k) (deps_of s t k))"

text \<open>Statements that can start a replay: a write and the registration of an effect.\<close>

fun writes :: "op \<Rightarrow> bool" where
  "writes (SetProp e key e') = True"
| "writes (Effect x fn) = True"
| "writes c = False"

definition reads_only :: "op list \<Rightarrow> bool" where
  "reads_only cs = list_all (\<lambda>c. \<not> writes c) cs"

text \<open>The state an outcome ends in, and the handles called since a state \<open>s\<close>.\<close>

definition state_of :: "outcome \<Rightarrow> state" where
  "state_of oc = (case oc of None \<Rightarrow> init | Some (s, r) \<Rightarrow> s)"

definition result_of :: "outcome \<Rightarrow> (exn + val) option" where
  "result_of oc = (case oc of None \<Rightarrow> None | Some (s, r) \<Rightarrow> Some r)"

definition replayed :: "state \<Rightarrow> outcome \<Rightarrow> eff list" where
  "replayed s oc = map ev_effect (drop (length (calls s)) (calls (state_of oc)))"

section \<open>Example objects and callbacks\<close>

text \<open>A callback with an empty body.\<close>

definition idle :: program where
  "idle fn = []"

text \<open>The object \<^verbatim>\<open>o = {a: 1}\<close> at address 0, and the same after \<^verbatim>\<open>p = reactive(o)\<close>.\<close>

definition obj_a1 :: state where
  "obj_a1 = init\<lparr>heap := [0 \<mapsto> Plain [''a'' \<mapsto> Num 1]], nxt := 1, vars := [''o'' \<mapsto> Ref 0]\<rparr>"

definition wrapped_a1 :: state where
  "wrapped_a1 = state_of (exec_ops (invoke 0 idle) 0 [Reactive ''p'' (Var ''o'')] obj_a1)"

text \<open>
  Callback 0 is \<^verbatim>\<open>() => { x = p.a }\<close>, callback 1 is \<^verbatim>\<open>() => { y = p.a }\<close> and
  callback 2 is \<^verbatim>\<open>() => { z = p.b }\<close>, which reads a key that \<open>o\<close> does not own.
  \<open>registered\<close> is the state after \<^verbatim>\<open>effect\<close> was called on the three in turn.
\<close>

definition readers :: program where
  "readers fn =
     (if fn = 0 then [GetProp ''x'' (Var ''p'') ''a'']
      else if fn = 1 then [GetProp ''y'' (Var ''p'') ''a'']
      else if fn = 2 then [GetProp ''z'' (Var ''p'') ''b'']
      else [])"

definition registered :: state where
  "registered =
     state_of (exec_ops (invoke 1 readers) 1
       [Effect ''h'' 0, Effect ''h'' 1, Effect ''h'' 2] wrapped_a1)"

text \<open>
  \<open>reading_b\<close> is the state in which \<^verbatim>\<open>effect(cb2)\<close>, called right after
  \<^verbatim>\<open>p = reactive(o)\<close>, starts the body of callback 2, and \<open>registered_b\<close> the state
  in which that call of \<^verbatim>\<open>effect\<close> returns.
\<close>

definition reading_b :: state where
  "reading_b = push 0 2 (fst (createReactiveEffect wrapped_a1 2))"

definition registered_b :: state where
  "registered_b = state_of (effect (invoke 1 readers) 2 wrapped_a1)"

text \<open>
  The object \<^verbatim>\<open>o = {nested: {x: 1}}\<close> at addresses 0 and 1, and the callback
  \<^verbatim>\<open>() => { n = p.nested; v = n.x }\<close>, which reads \<^verbatim>\<open>reactive(o).nested.x\<close>.
\<close>

definition obj_nested :: state where
  "obj_nested = init\<lparr>heap := [0 \<mapsto> Plain [''nested'' \<mapsto> Ref 1], 1 \<mapsto> Plain [''x'' \<mapsto> Num 1]],
     nxt := 2, vars := [''o'' \<mapsto> Ref 0]\<rparr>"

definition nested_reader :: program where
  "nested_reader fn =
     (if fn = 0 then [GetProp ''n'' (Var ''p'') ''nested'', GetProp ''v'' (Var ''n'') ''x'']
      else [])"

definition wrapped_nested :: state where
  "wrapped_nested =
     state_of (exec_ops (invoke 0 idle) 0 [Reactive ''p'' (Var ''o'')] obj_nested)"

definition registered_nested :: state where
  "registered_nested =
     state_of (exec_ops (invoke 1 nested_reader) 1 [Effect ''h'' 0] wrapped_nested)"

text \<open>Callback 0 is \<^verbatim>\<open>() => { x = p.a; throw 'boom' }\<close>, callback 1 reads \<^verbatim>\<open>p.a\<close>.\<close>

definition thrower :: program where
  "thrower fn =
     (if fn = 0 then [GetProp ''x'' (Var ''p'') ''a'', Throw (Lit (Str ''boom''))]
      else if fn = 1 then [GetProp ''y'' (Var ''p'') ''a'']
      else [])"

text \<open>
  The state after \<^verbatim>\<open>try { effect(cb0) } catch (e) {}\<close> and \<^verbatim>\<open>effect(cb1)\<close> with the
  callbacks of \<open>thrower\<close>.
\<close>

definition registered_thrower :: state where
  "registered_thrower =
     state_of (exec_ops (invoke 1 thrower) 1 [Effect ''h'' 1]
       (state_of (exec_ops (invoke 1 thrower) 1 [Effect ''h'' 0] wrapped_a1)))"

text \<open>
  \<open>reading_a\<close> is the state in which \<^verbatim>\<open>effect(cb1)\<close>, called after \<^verbatim>\<open>effect(cb0)\<close>
  with the callbacks of \<open>readers\<close>, starts the body of callback 1.
\<close>

definition reading_a :: state where
  "reading_a =
     push 1 1 (fst (createReactiveEffect (state_of (effect (invoke 1 readers) 0 wrapped_a1)) 1))"

text \<open>Callback 0 is \<^verbatim>\<open>() => { x = p.a; p.a = 5 }\<close>, which writes the key it has read.\<close>

definition self_writer :: program where
  "self_writer fn =
     (if fn = 0 then [GetProp ''x'' (Var ''p'') ''a'', SetProp (Var ''p'') ''a'' (Lit (Num 5))]
      else [])"

text \<open>
  Callback 0 is \<^verbatim>\<open>() => { x = p.a; y = p.b }\<close> and callback 1 is
  \<^verbatim>\<open>() => { z = p.a; p.b = z }\<close>, which copies \<^verbatim>\<open>a\<close> to \<^verbatim>\<open>b\<close>. \<open>registered_copier\<close> is
  the state after \<^verbatim>\<open>effect\<close> was called on both.
\<close>

definition copier :: program where
  "copier fn =
     (if fn = 0 then [GetProp ''x'' (Var ''p'') ''a'', GetProp ''y'' (Var ''p'') ''b'']
      else if fn = 1 then [GetProp ''z'' (Var ''p'') ''a'', SetProp (Var ''p'') ''b'' (Var ''z'')]
      else [])"

definition registered_copier :: state where
  "registered_copier =
     state_of (exec_ops (invoke 2 copier) 2 [Effect ''h'' 0, Effect ''h'' 1] wrapped_a1)"

text \<open>
  Callback 0 is \<^verbatim>\<open>() => { x = p.b; throw 'boom' }\<close>, callback 1 reads \<^verbatim>\<open>p.b\<close>; \<open>o\<close> does
  not own \<^verbatim>\<open>b\<close>. \<open>registered_thrower_b\<close> is the state after
  \<^verbatim>\<open>try { effect(cb0) } catch (e) {}\<close> and \<^verbatim>\<open>effect(cb1)\<close>.
\<close>

definition thrower_b :: program where
  "thrower_b fn =
     (if fn = 0 then [GetProp ''x'' (Var ''p'') ''b'', Throw (Lit (Str ''boom''))]
      else if fn = 1 then [GetProp ''y'' (Var ''p'') ''b'']
      else [])"

definition registered_thrower_b :: state where
  "registered_thrower_b =
     state_of (exec_ops (invoke 1 thrower_b) 1 [Effect ''h'' 1]
       (state_of (exec_ops (invoke 1 thrower_b) 1 [Effect ''h'' 0] wrapped_a1)))"

text \<open>
  The object \<^verbatim>\<open>o = {a: 1, hasOwnProperty: 1}\<close>, whose own property hides
  \<^verbatim>\<open>Object.prototype.hasOwnProperty\<close>, after \<^verbatim>\<open>p = reactive(o)\<close> and
  \<^verbatim>\<open>effect(cb0)\<close> with callback 0 of \<open>readers\<close>.
\<close>

definition obj_shadowed :: state where
  "obj_shadowed = init\<lparr>heap := [0 \<mapsto> Plain [''a'' \<mapsto> Num 1, ''hasOwnProperty'' \<mapsto> Num 1]],
     nxt := 1, vars := [''o'' \<mapsto> Ref 0]\<rparr>"

definition registered_shadowed :: state where
  "registered_shadowed =
     state_of (exec_ops (invoke 1 readers) 1 [Reactive ''p'' (Var ''o''), Effect ''h'' 0]
       obj_shadowed)"

section \<open>The stack, the call events and the dependency sets\<close>

lemma ok_refl: "ok s s"
  by (simp add: ok_def)

lemma ok_trans: "ok s s1 \<Longrightarrow> ok s1 s2 \<Longrightarrow> ok s s2"
  unfolding ok_def
  apply (elim conjE exE)
  apply (intro conjI)
     apply simp
    apply (rule_tac x="evs @ evsa" in exI)
    apply auto[1]
   apply (meson prefix_order.trans)
  apply blast
  done

lemma ok_same:
  "activeEffectStack s' = activeEffectStack s \<Longrightarrow> calls s' = calls s \<Longrightarrow>
   targetMap s' = targetMap s \<Longrightarrow> ok s s'"
  by (simp add: ok_def deps_of_def)

lemma reactive_same:
  "reactive s v = (s', r) \<Longrightarrow>
   activeEffectStack s' = activeEffectStack s \<and> calls s' = calls s \<and>
   targetMap s' = targetMap s \<and> effs s' = effs s"
  by (auto simp: reactive_def createReactiveObject_def Let_def split: val.splits option.splits if_splits)

lemma deps_of_track:
  "deps_of (track s t k) t' k' =
     (if t' = t \<and> k' = k then
        (case current s of None \<Rightarrow> deps_of s t k
         | Some e \<Rightarrow> if e \<in> set (deps_of s t k) then deps_of s t k else deps_of s t k @ [e])
      else deps_of s t' k')"
  by (auto simp: track_def deps_of_def Let_def split: option.splits)

lemma track_same:
  "activeEffectStack (track s t k) = activeEffectStack s"
  "calls (track s t k) = calls s"
  "heap (track s t k) = heap s"
  "effs (track s t k) = effs s"
  by (auto simp: track_def Let_def split: option.splits)

lemma ok_track: "ok s (track s t k)"
  by (auto simp: ok_def track_same deps_of_track split: option.splits)

lemma proxy_get_Some:
  assumes "proxy_get s t k = Some (s', r)"
  obtains (object) a where "Reflect_get s t k = Some (Ref a)"
      "reactive (track s t k) (Ref a) = (s', r)"
  | (data) "Reflect_get s t k = Some r" "\<not> isObject r" "s' = track s t k"
proof -
  from assms obtain v where v: "Reflect_get s t k = Some v"
    by (auto simp: proxy_get_def split: option.splits)
  show ?thesis
  proof (cases "isObject v")
    case True
    then obtain a where "v = Ref a" by (cases v) (simp_all add: isObject_def)
    with assms v True show ?thesis by (intro object [of a]) (simp_all add: proxy_get_def Let_def)
  next
    case False
    with assms v show ?thesis by (intro data) (simp_all add: proxy_get_def Let_def)
  qed
qed

lemma ok_proxy_get: "proxy_get s t k = Some (s', r) \<Longrightarrow> ok s s'"
proof (erule proxy_get_Some)
  fix a assume "reactive (track s t k) (Ref a) = (s', r)"
  then have "ok (track s t k) s'"
    by (auto dest!: reactive_same intro: ok_same)
  with ok_track show "ok s s'" by (rule ok_trans)
next
  assume "s' = track s t k"
  then show "ok s s'" by (simp add: ok_track)
qed

lemma ok_assign: "ok s s' \<Longrightarrow> ok s (assign x v s')"
  by (simp add: ok_def assign_def deps_of_def)

lemma Reflect_set_same:
  "Reflect_set s t k v = Some (s', r) \<Longrightarrow>
   activeEffectStack s' = activeEffectStack s \<and> calls s' = calls s \<and>
   targetMap s' = targetMap s \<and> effs s' = effs s"
  by (auto simp: Reflect_set_def split: option.splits obj.splits if_splits val.splits)

lemma Reflect_set_ok: "Reflect_set s t k v = Some (s', r) \<Longrightarrow> ok s s'"
  by (auto dest!: Reflect_set_same intro: ok_same)

lemma Reflect_deleteProperty_same:
  "Reflect_deleteProperty s t k = (s', r) \<Longrightarrow>
   activeEffectStack s' = activeEffectStack s \<and> calls s' = calls s \<and>
   targetMap s' = targetMap s \<and> effs s' = effs s"
  by (auto simp: Reflect_deleteProperty_def split: option.splits obj.splits)

lemma proxy_deleteProperty_same:
  "proxy_deleteProperty s t k = (s', r) \<Longrightarrow>
   activeEffectStack s' = activeEffectStack s \<and> calls s' = calls s \<and>
   targetMap s' = targetMap s \<and> effs s' = effs s"
  by (auto simp: proxy_deleteProperty_def Let_def split: prod.splits dest: Reflect_deleteProperty_same)

lemma ok_forEach:
  "sound call \<Longrightarrow> forEach call n t k i s = Some (s', r) \<Longrightarrow> ok s s'"
proof (induction n arbitrary: i s)
  case 0
  then show ?case by (simp add: ok_refl split: if_splits)
next
  case (Suc n)
  show ?case
  proof (cases "i < length (deps_of s t k)")
    case False
    with Suc.prems show ?thesis by (simp add: ok_refl)
  next
    case True
    with Suc.prems obtain s1 r1 where c: "call (deps_of s t k ! i) s = Some (s1, r1)"
      by (auto split: option.splits)
    with Suc.prems(1) have ok1: "ok s s1" by (auto simp: sound_def)
    show ?thesis
    proof (cases r1)
      case (Inl x)
      with True c Suc.prems ok1 show ?thesis by simp
    next
      case (Inr v)
      with True c Suc.prems have "forEach call n t k (Suc i) s1 = Some (s', r)" by simp
      from Suc.IH [OF Suc.prems(1) this] ok1 show ?thesis by (rule ok_trans [rotated])
    qed
  qed
qed

lemma ok_trigger:
  "sound call \<Longrightarrow> trigger call n t ty k s = Some (s', r) \<Longrightarrow> ok s s'"
  by (auto simp: trigger_def ok_refl split: option.splits dest: ok_forEach)

lemma trigger_forEach: "trigger call n t ty k s = forEach call n t k 0 s"
  by (cases n) (auto simp: trigger_def deps_of_def split: option.splits)

text \<open>The three ways in which the set trap comes back.\<close>

lemma proxy_set_Some:
  assumes "proxy_set call n t k v s = Some (s', r)"
  obtains (throws) "hasKey s t k = Inl TypeError" "s' = s" "r = Inl TypeError"
  | (quiet) old b where "hasKey s t k = Inr True" "Reflect_get s t k = Some old"
      "\<not> strict_neq old v" "Reflect_set s t k v = Some (s', b)" "r = Inr (Bool b)"
  | (replay) own s1 b r' where "hasKey s t k = Inr own"
      "\<not> own \<or> (\<exists>old. Reflect_get s t k = Some old \<and> strict_neq old v)"
      "Reflect_set s t k v = Some (s1, b)" "forEach call n t k 0 s1 = Some (s', r')"
      "r = (case r' of Inl x \<Rightarrow> Inl x | Inr u \<Rightarrow> Inr (Bool b))"
proof (cases "hasKey s t k")
  case (Inl x)
  then have "x = TypeError" by (auto simp: hasKey_def split: option.splits)
  with Inl assms show ?thesis by (intro throws) (simp_all add: proxy_set_def)
next
  case (Inr own)
  with assms obtain s1 b where w: "Reflect_set s t k v = Some (s1, b)"
    by (auto simp: proxy_set_def Let_def split: option.splits)
  show ?thesis
  proof (cases "\<not> own \<or> (\<exists>old. Reflect_get s t k = Some old \<and> strict_neq old v)")
    case True
    with assms Inr w obtain r' where "forEach call n t k 0 s1 = Some (s', r')"
      "r = (case r' of Inl x \<Rightarrow> Inl x | Inr u \<Rightarrow> Inr (Bool b))"
      by (auto simp: proxy_set_def Let_def trigger_forEach split: option.splits sum.splits if_splits)
    with Inr True w show ?thesis by (intro replay)
  next
    case False
    with assms Inr w obtain old where "Reflect_get s t k = Some old" "\<not> strict_neq old v"
      "s' = s1" "r = Inr (Bool b)"
      by (auto simp: proxy_set_def Let_def split: option.splits if_splits)
    with Inr False w show ?thesis by (intro quiet [of old b]) simp_all
  qed
qed

lemma ok_proxy_set:
  assumes "sound call" and "proxy_set call n t k v s = Some (s', r)"
  shows "ok s s'"
  using assms(2)
proof (cases rule: proxy_set_Some)
  case throws
  then show ?thesis by (simp add: ok_refl)
next
  case (quiet old b)
  then show ?thesis by (simp add: Reflect_set_ok)
next
  case (replay own s1 b r')
  from Reflect_set_ok [OF replay(3)] ok_forEach [OF assms(1) replay(4)]
  show ?thesis by (rule ok_trans)
qed

lemma ok_effect:
  "sound call \<Longrightarrow> effect call fn s = Some (s', r) \<Longrightarrow> ok s s'"
proof -
  assume snd: "sound call" and a: "effect call fn s = Some (s', r)"
  let ?s1 = "s\<lparr>effs := effs s @ [fn]\<rparr>"
  from a obtain r1 where "call (length (effs s)) ?s1 = Some (s', r1)"
    by (auto simp: effect_def createReactiveEffect_def split: option.splits sum.splits)
  with snd have "ok ?s1 s'" by (auto simp: sound_def)
  moreover have "ok s ?s1" by (simp add: ok_same)
  ultimately show ?thesis by (rule ok_trans [rotated])
qed

lemma ok_exec_op:
  assumes "sound call" and "exec_op call n c s = Some (s', r)"
  shows "ok s s'"
proof (cases c)
  case (Reactive x e)
  with assms(2) show ?thesis
    by (auto simp: Let_def split: prod.splits dest!: reactive_same intro!: ok_assign ok_same)
next
  case (GetProp x e key)
  with assms(2) show ?thesis
    by (auto simp: Let_def ok_refl split: prod.splits val.splits option.splits obj.splits
        dest!: ok_proxy_get intro!: ok_assign)
next
  case (SetProp e key e')
  with assms show ?thesis
    by (auto simp: ok_refl split: prod.splits val.splits option.splits obj.splits sum.splits
        dest: ok_proxy_set Reflect_set_ok)
next
  case (DelProp e key)
  with assms(2) show ?thesis
    by (auto simp: ok_refl proxy_deleteProperty_same [OF surjective_pairing]
          Reflect_deleteProperty_same [OF surjective_pairing] ok_same
        split: val.splits option.splits obj.splits)
next
  case (Effect x fn)
  with assms show ?thesis
    by (auto split: option.splits sum.splits dest: ok_effect intro!: ok_assign)
next
  case (Throw e)
  with assms(2) show ?thesis by (auto simp: ok_refl)
qed

lemma ok_exec_ops:
  "sound call \<Longrightarrow> exec_ops call n cs s = Some (s', r) \<Longrightarrow> ok s s'"
proof (induction cs arbitrary: s)
  case Nil
  then show ?case by (simp add: ok_refl)
next
  case (Cons c cs)
  from Cons.prems(2) obtain s1 r1 where c: "exec_op call n c s = Some (s1, r1)"
    by (auto split: option.splits)
  with Cons.prems(1) have ok1: "ok s s1" by (rule ok_exec_op)
  show ?case
  proof (cases r1)
    case (Inl x)
    with c Cons.prems(2) ok1 show ?thesis by simp
  next
    case (Inr v)
    with c Cons.prems(2) have "exec_ops call n cs s1 = Some (s', r)" by simp
    from Cons.IH [OF Cons.prems(1) this] ok1 show ?thesis by (rule ok_trans [rotated])
  qed
qed

lemma ok_push_pop:
  assumes "ok (push e fn s) s1"
  shows "ok s (pop s1)"
proof -
  have d: "deps_of (push e fn s) = deps_of s" "deps_of (pop s1) = deps_of s1"
    by (simp_all add: push_def pop_def deps_of_def fun_eq_iff)
  from assms show ?thesis
    unfolding ok_def d
    by (fastforce simp: push_def pop_def dest: Suc_lessD)
qed

lemma ok_run:
  "sound call \<Longrightarrow> run call n P e fn s = Some (s', r) \<Longrightarrow> ok s s'"
  by (auto simp: run_def split: option.splits sum.splits dest!: ok_exec_ops intro: ok_push_pop)

lemma sound_invoke: "sound (invoke n P)"
proof (induction n)
  case 0
  show ?case by (simp add: sound_def)
next
  case (Suc n)
  show ?case
    unfolding sound_def
    by (auto simp: ok_refl split: if_splits dest: ok_run [OF Suc])
qed


lemma run_event:
  assumes "sound call" and "run call n P e fn s = Some (s', r)"
  shows "\<exists>evs. calls s' = calls s @
            \<lparr>ev_effect = e, ev_fn = fn, ev_depth = Suc (length (activeEffectStack s))\<rparr> # evs \<and>
          (\<forall>ev \<in> set evs. Suc (length (activeEffectStack s)) < ev_depth ev)"
proof -
  from assms(2) obtain s1 r1 where
    b: "exec_ops call n (P fn) (push e fn s) = Some (s1, r1)" and s': "s' = pop s1"
    by (auto simp: run_def split: option.splits sum.splits)
  from ok_exec_ops [OF assms(1) b] obtain evs where
    "calls s1 = calls (push e fn s) @ evs"
    "\<forall>ev \<in> set evs. length (activeEffectStack (push e fn s)) < ev_depth ev"
    by (auto simp: ok_def)
  then show ?thesis
    by (auto simp: s' pop_def push_def)
qed

lemma invoke_event:
  assumes "invoke n P e s = Some (s', r)" and "e < length (effs s)"
  shows "\<exists>evs. calls s' = calls s @
            \<lparr>ev_effect = e, ev_fn = effs s ! e,
             ev_depth = Suc (length (activeEffectStack s))\<rparr> # evs \<and>
          (\<forall>ev \<in> set evs. Suc (length (activeEffectStack s)) < ev_depth ev)"
proof (cases n)
  case 0
  with assms show ?thesis by simp
next
  case (Suc m)
  with assms have "run (invoke m P) m P e (effs s ! e) s = Some (s', r)" by simp
  from run_event [OF sound_invoke this] show ?thesis .
qed




lemma proxy_get_same:
  "proxy_get s t k = Some (s', r) \<Longrightarrow>
   activeEffectStack s' = activeEffectStack s \<and> calls s' = calls s \<and> effs s' = effs s"
  by (erule proxy_get_Some) (auto simp: track_same dest!: reactive_same)

lemma exec_op_quiet:
  "\<not> writes c \<Longrightarrow> exec_op call n c s = Some (s', r) \<Longrightarrow> calls s' = calls s"
  by (cases c)
     (auto simp: Let_def assign_def reactive_same [OF surjective_pairing]
        Reflect_deleteProperty_same [OF surjective_pairing]
        proxy_deleteProperty_same [OF surjective_pairing]
        split: prod.splits val.splits option.splits obj.splits
        dest: proxy_get_same reactive_same)

lemma exec_ops_quiet:
  "reads_only cs \<Longrightarrow> exec_ops call n cs s = Some (s', r) \<Longrightarrow> calls s' = calls s"
proof (induction cs arbitrary: s)
  case Nil
  then show ?case by simp
next
  case (Cons c cs)
  from Cons.prems have q: "\<not> writes c" and qs: "reads_only cs"
    by (simp_all add: reads_only_def)
  from Cons.prems(2) obtain s1 r1 where c: "exec_op call n c s = Some (s1, r1)"
    by (auto split: option.splits)
  from exec_op_quiet [OF q c] have c1: "calls s1 = calls s" .
  show ?case
  proof (cases r1)
    case (Inl x)
    with c Cons.prems(2) c1 show ?thesis by simp
  next
    case (Inr v)
    with c Cons.prems(2) have "exec_ops call n cs s1 = Some (s', r)" by simp
    from Cons.IH [OF qs this] c1 show ?thesis by simp
  qed
qed

lemma Reflect_set_deps:
  "Reflect_set s t k v = Some (s1, b) \<Longrightarrow> deps_of s1 = deps_of s"
  by (auto simp: fun_eq_iff deps_of_def dest!: Reflect_set_same)

lemma forEach_no_deps:
  "deps_of s t k = [] \<Longrightarrow> forEach call n t k 0 s = Some (s, Inr Undefined)"
  by (cases n) simp_all

lemma hasKey_Inr:
  "hasKey s t k = Inr own \<Longrightarrow>
   props s t ''hasOwnProperty'' = None \<and> own = (props s t k \<noteq> None)"
  by (auto simp: hasKey_def split: option.splits)

lemma hasKey_Inl: "hasKey s t k = Inl x \<Longrightarrow> x = TypeError \<and> props s t ''hasOwnProperty'' \<noteq> None"
  by (auto simp: hasKey_def split: option.splits)

lemma Reflect_get_own: "props s t k = Some old \<Longrightarrow> Reflect_get s t k = Some old"
  by (simp add: Reflect_get_def)



text \<open>The set trap in terms of the replay loop.\<close>

lemma proxy_set_throws:
  "hasKey s t k = Inl x \<Longrightarrow> proxy_set call n t k v s = Some (s, Inl x)"
  by (simp add: proxy_set_def)








lemma reactive_cases:
  assumes "reactive s (Ref a) = (s1, w)"
  obtains (known) p where "toProxy s a = Some p" "s1 = s" "w = Ref p"
  | (proxy) "toProxy s a = None" "toRaw s a \<noteq> None" "s1 = s" "w = Ref a"
  | (fresh) "toProxy s a = None" "toRaw s a = None" "w = Ref (nxt s)"
      "s1 = s\<lparr>heap := (heap s)(nxt s \<mapsto> Proxy a), nxt := Suc (nxt s),
              toProxy := (toProxy s)(a \<mapsto> nxt s), toRaw := (toRaw s)(nxt s \<mapsto> a)\<rparr>"
  using assms
  by (auto simp: reactive_def createReactiveObject_def Let_def split: option.splits if_splits)

lemma wf_registries:
  assumes "wf s"
  shows "toProxy s a = Some p \<longleftrightarrow> toRaw s p = Some a"
    and "heap s p = Some (Proxy a) \<longleftrightarrow> toRaw s p = Some a"
  using assms unfolding wf_def by blast+

lemma wf_raw:
  assumes "wf s" and "toRaw s p = Some a"
  shows "toProxy s a = Some p"
  using assms unfolding wf_def by blast

lemma wf_proxy:
  assumes "wf s" and "toRaw s p = Some a"
  shows "toProxy s p = None" and "toRaw s a = None"
  using assms unfolding wf_def by blast+

lemma wf_allocated:
  assumes "wf s"
  shows "heap s a = Some x \<Longrightarrow> a < nxt s"
    and "toProxy s a = Some p \<Longrightarrow> a < nxt s"
    and "toRaw s a = Some t \<Longrightarrow> a < nxt s"
  using assms unfolding wf_def by blast+

lemma wf_nxt:
  assumes "wf s"
  shows "heap s (nxt s) = None" and "toProxy s (nxt s) = None" and "toRaw s (nxt s) = None"
proof -
  show "heap s (nxt s) = None"
    using wf_allocated(1) [OF assms, of "nxt s"] by (cases "heap s (nxt s)") auto
  show "toProxy s (nxt s) = None"
    using wf_allocated(2) [OF assms, of "nxt s"] by (cases "toProxy s (nxt s)") auto
  show "toRaw s (nxt s) = None"
    using wf_allocated(3) [OF assms, of "nxt s"] by (cases "toRaw s (nxt s)") auto
qed

lemma wf_not_proxy:
  assumes "wf s" and "toRaw s a = None"
  shows "heap s a \<noteq> Some (Proxy t)"
  using assms wf_registries(2) [OF assms(1), of a t] by simp

lemma wf_fresh:
  assumes "wf s" and "heap s a \<noteq> None" and "toProxy s a = None" and "toRaw s a = None"
  shows "wf (s\<lparr>heap := (heap s)(nxt s \<mapsto> Proxy a), nxt := Suc (nxt s),
              toProxy := (toProxy s)(a \<mapsto> nxt s), toRaw := (toRaw s)(nxt s \<mapsto> a)\<rparr>)"
proof -
  note n = wf_nxt [OF assms(1)]
  from assms(2) have a: "a < nxt s" using wf_allocated(1) [OF assms(1)] by auto
  show ?thesis
    unfolding wf_def
    apply (intro conjI)
    subgoal using n assms(3,4)
      by (auto simp: wf_registries(1) [OF assms(1)] dest: wf_raw [OF assms(1)])
    subgoal using n a assms(3,4)
      by (auto split: if_splits dest: wf_proxy [OF assms(1)] wf_raw [OF assms(1)])
    subgoal using n by (auto simp: wf_registries(2) [OF assms(1)])
    subgoal using a by (auto split: if_splits simp: less_Suc_eq dest: wf_allocated [OF assms(1)])
    done
qed



lemma track_registries:
  "toProxy (track s t k) = toProxy s" "toRaw (track s t k) = toRaw s" "nxt (track s t k) = nxt s"
  by (simp_all add: track_def Let_def split: option.splits)


lemma grows_refl: "grows s s"
  by (simp add: grows_def)

lemma grows_trans: "grows s s1 \<Longrightarrow> grows s1 s2 \<Longrightarrow> grows s s2"
  by (simp add: grows_def)

lemma allocated_grows: "grows s s' \<Longrightarrow> allocated s v \<Longrightarrow> allocated s' v"
  by (auto simp: grows_def allocated_def split: val.splits)

lemma expr_ok_grows: "grows s s' \<Longrightarrow> expr_ok s e \<Longrightarrow> expr_ok s' e"
  by (cases e) (auto dest: allocated_grows)

lemma op_ok_grows: "grows s s' \<Longrightarrow> op_ok s c \<Longrightarrow> op_ok s' c"
  by (cases c) (auto dest: expr_ok_grows)

lemma ops_ok_grows: "grows s s' \<Longrightarrow> list_all (op_ok s) cs \<Longrightarrow> list_all (op_ok s') cs"
  by (induction cs) (auto dest: op_ok_grows)

lemma eval_allocated: "heap_closed s \<Longrightarrow> expr_ok s e \<Longrightarrow> allocated s (eval s e)"
  by (cases e) (auto simp: heap_closed_def allocated_def split: option.splits)

text \<open>A step that changes only fields outside the heap, the registries and the variables.\<close>

lemma good_same:
  assumes "heap s' = heap s" "toProxy s' = toProxy s" "toRaw s' = toRaw s" "nxt s' = nxt s"
    "vars s' = vars s"
  shows "good P s' = good P s"
proof -
  have a: "allocated s' v = allocated s v" for v
    by (cases v) (simp_all add: allocated_def assms(1))
  have e: "expr_ok s' e = expr_ok s e" for e
    by (cases e) (simp_all add: a)
  have c: "op_ok s' c = op_ok s c" for c
    by (cases c) (simp_all add: e)
  have "op_ok s' = op_ok s"
    by (rule ext) (rule c)
  with assms a show ?thesis
    by (simp add: good_def wf_def heap_closed_def)
qed

lemma good_track: "good P (track s t k) = good P s"
  by (rule good_same) (simp_all add: track_def Let_def split: option.splits)

lemma good_push: "good P (push e fn s) = good P s"
  by (rule good_same) (simp_all add: push_def)

lemma good_pop: "good P (pop s) = good P s"
  by (rule good_same) (simp_all add: pop_def)

lemma good_reactive:
  assumes "good P s" and "allocated s v" and "reactive s v = (s', r)"
  shows "good P s' \<and> grows s s' \<and> allocated s' r"
proof (cases v)
  case (Ref a)
  with assms(2) have ha: "heap s a \<noteq> None" by (simp add: allocated_def)
  from assms(1) have w: "wf s" and hc: "heap_closed s" and po: "\<forall>fn. list_all (op_ok s) (P fn)"
    by (simp_all add: good_def)
  from assms(3) Ref have "reactive s (Ref a) = (s', r)" by simp
  then show ?thesis
  proof (cases rule: reactive_cases)
    case (known p)
    then have "heap s p = Some (Proxy a)"
      by (simp add: wf_registries [OF w])
    with known assms(1) show ?thesis by (simp add: grows_refl allocated_def)
  next
    case proxy
    with assms(1) ha show ?thesis by (simp add: grows_refl allocated_def)
  next
    case fresh
    note n = wf_nxt [OF w]
    have g: "grows s s'" unfolding fresh(4) by (simp add: grows_def)
    have w': "wf s'" unfolding fresh(4) by (rule wf_fresh [OF w ha fresh(1,2)])
    have hc': "heap_closed s'"
      using hc n(1) unfolding fresh(4) heap_closed_def allocated_def
      by (auto split: val.splits if_splits)
    from po g have "\<forall>fn. list_all (op_ok s') (P fn)" by (auto dest: ops_ok_grows)
    with w' hc' g fresh(3) show ?thesis
      unfolding good_def by (simp add: allocated_def fresh(4))
  qed
qed (use assms in \<open>auto simp: reactive_def createReactiveObject_def grows_refl allocated_def\<close>)

lemma ops_ok_dom:
  assumes "\<And>a. (heap s' a = None) = (heap s a = None)"
  shows "list_all (op_ok s') cs = list_all (op_ok s) cs"
proof -
  have "grows s s'" "grows s' s" using assms by (simp_all add: grows_def)
  then show ?thesis by (auto dest: ops_ok_grows)
qed

lemma good_assign:
  assumes "good P s" and "allocated s v"
  shows "good P (assign x v s)"
proof -
  have h: "heap (assign x v s) = heap s" by (simp add: assign_def)
  have "list_all (op_ok (assign x v s)) cs = list_all (op_ok s) cs" for cs
    by (rule ops_ok_dom) (simp add: h)
  moreover have "wf (assign x v s) = wf s" by (simp add: wf_def assign_def)
  moreover have "heap_closed (assign x v s)"
    using assms unfolding good_def heap_closed_def allocated_def
    by (auto simp: assign_def split: val.splits)
  ultimately show ?thesis using assms(1) by (simp add: good_def)
qed

lemma good_Reflect_set:
  assumes "good P s" and "allocated s v" and "Reflect_set s t k v = Some (s', b)"
  shows "good P s' \<and> grows s s'"
proof (cases "s' = s")
  case True
  with assms(1) show ?thesis by (simp add: grows_refl)
next
  case False
  with assms(3) obtain m where m: "heap s t = Some (Plain m)"
    and s': "s' = s\<lparr>heap := (heap s)(t \<mapsto> Plain (m(k \<mapsto> v)))\<rparr>"
    by (auto simp: Reflect_set_def split: option.splits obj.splits if_splits val.splits)
  let ?s' = "s\<lparr>heap := (heap s)(t \<mapsto> Plain (m(k \<mapsto> v)))\<rparr>"
  from assms(1) have w: "wf s" and hc: "heap_closed s" and po: "\<forall>fn. list_all (op_ok s) (P fn)"
    by (simp_all add: good_def)
  have d: "(heap ?s' a = None) = (heap s a = None)" for a using m by simp
  have g: "grows s ?s'" using d by (simp add: grows_def)
  have nr: "toRaw s t = None"
    using wf_registries(2) [OF w, of t] m by (cases "toRaw s t") auto
  have w': "wf ?s'"
    using w m nr unfolding wf_def by (auto split: if_splits)
  have hc': "heap_closed ?s'"
    using hc m assms(2) unfolding heap_closed_def allocated_def
    by (auto split: val.splits if_splits)
  have "list_all (op_ok ?s') cs = list_all (op_ok s) cs" for cs
    by (rule ops_ok_dom) (rule d)
  with w' hc' po g show ?thesis unfolding s' good_def by simp
qed

lemma good_Reflect_deleteProperty:
  assumes "good P s"
  shows "good P (fst (Reflect_deleteProperty s t k)) \<and> grows s (fst (Reflect_deleteProperty s t k))"
proof (cases "\<exists>m. heap s t = Some (Plain m)")
  case False
  then have "fst (Reflect_deleteProperty s t k) = s"
    by (auto simp: Reflect_deleteProperty_def split: option.splits obj.splits)
  with assms(1) show ?thesis by (simp add: grows_refl)
next
  case True
  then obtain m where m: "heap s t = Some (Plain m)" by blast
  let ?s' = "s\<lparr>heap := (heap s)(t \<mapsto> Plain (m(k := None)))\<rparr>"
  have s': "fst (Reflect_deleteProperty s t k) = ?s'" using m by (simp add: Reflect_deleteProperty_def)
  from assms(1) have w: "wf s" and hc: "heap_closed s" and po: "\<forall>fn. list_all (op_ok s) (P fn)"
    by (simp_all add: good_def)
  have d: "(heap ?s' a = None) = (heap s a = None)" for a using m by simp
  have g: "grows s ?s'" using d by (simp add: grows_def)
  have nr: "toRaw s t = None"
    using wf_registries(2) [OF w, of t] m by (cases "toRaw s t") auto
  have w': "wf ?s'"
    using w m nr unfolding wf_def by (auto split: if_splits)
  have hc': "heap_closed ?s'"
    using hc m unfolding heap_closed_def allocated_def
    by (auto split: val.splits if_splits)
  have "list_all (op_ok ?s') cs = list_all (op_ok s) cs" for cs
    by (rule ops_ok_dom) (rule d)
  with w' hc' po g show ?thesis unfolding s' good_def by simp
qed

lemma good_proxy_deleteProperty:
  assumes "good P s"
  shows "good P (fst (proxy_deleteProperty s t k)) \<and> grows s (fst (proxy_deleteProperty s t k))"
proof -
  let ?s1 = "fst (Reflect_deleteProperty s t k)"
  have e: "fst (proxy_deleteProperty s t k) = ?s1\<lparr>console := console ?s1 @ [''delete'']\<rparr>"
    by (simp add: proxy_deleteProperty_def case_prod_beta)
  have "good P (?s1\<lparr>console := console ?s1 @ [''delete'']\<rparr>) = good P ?s1"
    by (rule good_same) simp_all
  moreover have "grows s (?s1\<lparr>console := console ?s1 @ [''delete'']\<rparr>) = grows s ?s1"
    by (simp add: grows_def)
  ultimately show ?thesis
    using good_Reflect_deleteProperty [OF assms, of t k] unfolding e by simp
qed

lemma Reflect_get_allocated:
  "heap_closed s \<Longrightarrow> Reflect_get s t k = Some v \<Longrightarrow> allocated s v"
  by (auto simp: Reflect_get_def props_def heap_closed_def allocated_def
      split: option.splits obj.splits val.splits if_splits)

lemma good_proxy_get:
  assumes "good P s" and "proxy_get s t k = Some (s', r)"
  shows "good P s' \<and> grows s s' \<and> allocated s' r"
proof -
  let ?s1 = "track s t k"
  have h: "heap ?s1 = heap s" by (simp add: track_same)
  from assms(1) have g1: "good P ?s1" by (simp add: good_track)
  from assms(1) have hc: "heap_closed s" by (simp add: good_def)
  have gr: "grows s ?s1" by (simp add: grows_def h)
  from assms(2) show ?thesis
  proof (cases rule: proxy_get_Some)
    case (object a)
    from Reflect_get_allocated [OF hc object(1)] have "allocated ?s1 (Ref a)"
      by (simp add: allocated_def h)
    from good_reactive [OF g1 this object(2)] gr show ?thesis
      by (auto intro: grows_trans)
  next
    case data
    from Reflect_get_allocated [OF hc data(1)] have "allocated ?s1 r"
      by (cases r) (simp_all add: allocated_def h)
    with data g1 gr show ?thesis by simp
  qed
qed

lemma good_forEach:
  "keeps P call \<Longrightarrow> good P s \<Longrightarrow> forEach call n t k i s = Some (s', r) \<Longrightarrow>
   good P s' \<and> grows s s'"
proof (induction n arbitrary: i s)
  case 0
  then show ?case by (simp add: grows_refl split: if_splits)
next
  case (Suc n)
  show ?case
  proof (cases "i < length (deps_of s t k)")
    case False
    with Suc.prems show ?thesis by (simp add: grows_refl)
  next
    case True
    with Suc.prems obtain s1 r1 where c: "call (deps_of s t k ! i) s = Some (s1, r1)"
      by (auto split: option.splits)
    with Suc.prems(1,2) have g1: "good P s1" "grows s s1" by (auto simp: keeps_def)
    show ?thesis
    proof (cases r1)
      case (Inl x)
      with True c Suc.prems g1 show ?thesis by simp
    next
      case (Inr v)
      with True c Suc.prems have "forEach call n t k (Suc i) s1 = Some (s', r)" by simp
      from Suc.IH [OF Suc.prems(1) g1(1) this] g1(2) show ?thesis
        by (auto intro: grows_trans)
    qed
  qed
qed

lemma good_proxy_set:
  assumes "keeps P call" and "good P s" and "allocated s v"
    and "proxy_set call n t k v s = Some (s', r)"
  shows "good P s' \<and> grows s s'"
  using assms(4)
proof (cases rule: proxy_set_Some)
  case throws
  with assms(2) show ?thesis by (simp add: grows_refl)
next
  case (quiet old b)
  from good_Reflect_set [OF assms(2,3) quiet(4)] show ?thesis .
next
  case (replay own s1 b r')
  from good_Reflect_set [OF assms(2,3) replay(3)] have g1: "good P s1" "grows s s1" by simp_all
  from good_forEach [OF assms(1) g1(1) replay(4)] g1(2) show ?thesis
    by (auto intro: grows_trans)
qed

lemma good_effect:
  assumes "keeps P call" and "good P s" and "effect call fn s = Some (s', r)"
  shows "good P s' \<and> grows s s'"
proof -
  let ?s1 = "s\<lparr>effs := effs s @ [fn]\<rparr>"
  from assms(3) obtain r1 where c: "call (length (effs s)) ?s1 = Some (s', r1)"
    by (auto simp: effect_def createReactiveEffect_def split: option.splits sum.splits)
  have "good P ?s1 = good P s" by (rule good_same) simp_all
  with assms(2) have "good P ?s1" by simp
  with assms(1) c have "good P s'" "grows ?s1 s'" by (auto simp: keeps_def)
  then show ?thesis by (simp add: grows_def)
qed

lemma grows_assign: "grows s (assign x v s') = grows s s'"
  by (simp add: grows_def assign_def)

lemma allocated_assign: "allocated (assign x v s) w = allocated s w"
  by (cases w) (simp_all add: allocated_def assign_def)

lemma good_exec_op:
  assumes "keeps P call" and "good P s" and "op_ok s c"
    and "exec_op call n c s = Some (s', r)"
  shows "good P s' \<and> grows s s'"
proof -
  from assms(2) have hc: "heap_closed s" by (simp add: good_def)
  show ?thesis
  proof (cases c)
    case (Reactive x e)
    obtain s1 w where rw: "reactive s (eval s e) = (s1, w)" by (cases "reactive s (eval s e)")
    from Reactive assms(3) have "allocated s (eval s e)" by (simp add: eval_allocated [OF hc])
    from good_reactive [OF assms(2) this rw] Reactive assms(4) rw show ?thesis
      by (auto simp: good_assign grows_assign)
  next
    case (GetProp x e key)
    show ?thesis
    proof (cases "\<exists>a t. eval s e = Ref a \<and> heap s a = Some (Proxy t)")
      case True
      then obtain a t where a: "eval s e = Ref a" "heap s a = Some (Proxy t)" by blast
      with GetProp assms(4) obtain s1 w where g: "proxy_get s t key = Some (s1, w)"
        and s': "s' = assign x w s1"
        by (auto split: option.splits)
      from good_proxy_get [OF assms(2) g] s' show ?thesis
        by (auto simp: good_assign grows_assign)
    next
      case False
      with GetProp assms(4) have "s' = s \<or>
          (\<exists>a w. Reflect_get s a key = Some w \<and> s' = assign x w s)"
        by (auto split: val.splits option.splits obj.splits)
      with assms(2) hc show ?thesis
        by (auto simp: grows_refl grows_assign intro!: good_assign Reflect_get_allocated)
    qed
  next
    case (SetProp e key e')
    from SetProp assms(3) have al: "allocated s (eval s e')" by (simp add: eval_allocated [OF hc])
    show ?thesis
    proof (cases "\<exists>a t. eval s e = Ref a \<and> heap s a = Some (Proxy t)")
      case True
      then obtain a t where a: "eval s e = Ref a" "heap s a = Some (Proxy t)" by blast
      with SetProp assms(4) obtain r1 where "proxy_set call n t key (eval s e') s = Some (s', r1)"
        by (auto split: option.splits sum.splits)
      from good_proxy_set [OF assms(1,2) al this] show ?thesis .
    next
      case False
      with SetProp assms(4) have "s' = s \<or>
          (\<exists>a b. Reflect_set s a key (eval s e') = Some (s', b))"
        by (auto split: val.splits option.splits obj.splits)
      with assms(2) good_Reflect_set [OF assms(2) al] show ?thesis
        by (auto simp: grows_refl)
    qed
  next
    case (DelProp e key)
    with assms(4) have "s' = s \<or> (\<exists>t. s' = fst (proxy_deleteProperty s t key)) \<or>
        (\<exists>a. s' = fst (Reflect_deleteProperty s a key))"
      by (auto split: val.splits option.splits obj.splits)
    with assms(2) good_proxy_deleteProperty [OF assms(2)] good_Reflect_deleteProperty [OF assms(2)]
    show ?thesis by (auto simp: grows_refl)
  next
    case (Effect x fn)
    with assms(4) obtain s1 r1 where e: "effect call fn s = Some (s1, r1)"
      and s': "s' = s1 \<or> (\<exists>v. r1 = Inr v \<and> v = Undefined \<and> s' = assign x v s1)"
      by (auto simp: effect_def createReactiveEffect_def split: option.splits sum.splits)
    from good_effect [OF assms(1,2) e] s' show ?thesis
      by (auto simp: grows_assign allocated_def intro!: good_assign)
  next
    case (Throw e)
    with assms(2,4) show ?thesis by (auto simp: grows_refl)
  qed
qed

lemma good_exec_ops:
  "keeps P call \<Longrightarrow> good P s \<Longrightarrow> list_all (op_ok s) cs \<Longrightarrow>
   exec_ops call n cs s = Some (s', r) \<Longrightarrow> good P s' \<and> grows s s'"
proof (induction cs arbitrary: s)
  case Nil
  then show ?case by (simp add: grows_refl)
next
  case (Cons c cs)
  from Cons.prems(4) obtain s1 r1 where c: "exec_op call n c s = Some (s1, r1)"
    by (auto split: option.splits)
  from Cons.prems(3) have "op_ok s c" by simp
  from good_exec_op [OF Cons.prems(1,2) this c] have g1: "good P s1" "grows s s1" by simp_all
  show ?case
  proof (cases r1)
    case (Inl x)
    with c Cons.prems(4) g1 show ?thesis by simp
  next
    case (Inr v)
    with c Cons.prems(4) have e: "exec_ops call n cs s1 = Some (s', r)" by simp
    from Cons.prems(3) g1(2) have "list_all (op_ok s1) cs" by (auto dest: ops_ok_grows)
    from Cons.IH [OF Cons.prems(1) g1(1) this e] g1(2) show ?thesis
      by (auto intro: grows_trans)
  qed
qed

lemma good_run:
  assumes "keeps P call" and "good P s" and "run call n P e fn s = Some (s', r)"
  shows "good P s' \<and> grows s s'"
proof -
  from assms(3) obtain s1 r1 where
    b: "exec_ops call n (P fn) (push e fn s) = Some (s1, r1)" and s': "s' = pop s1"
    by (auto simp: run_def split: option.splits sum.splits)
  from assms(2) have g: "good P (push e fn s)" by (simp add: good_push)
  then have "list_all (op_ok (push e fn s)) (P fn)" by (simp add: good_def)
  from good_exec_ops [OF assms(1) g this b]
  have "good P (pop s1)" "grows (push e fn s) s1" by (simp_all add: good_pop)
  then show ?thesis
    unfolding s' by (simp add: grows_def push_def pop_def)
qed

lemma keeps_invoke: "keeps P (invoke n P)"
proof (induction n)
  case 0
  show ?case by (simp add: keeps_def)
next
  case (Suc n)
  show ?case
    unfolding keeps_def
    by (auto simp: grows_refl split: if_splits dest: good_run [OF Suc])
qed

lemma good_init: "(\<forall>fn. list_all (op_ok init) (P fn)) \<Longrightarrow> good P init"
  by (simp add: good_def wf_def heap_closed_def init_def)

text \<open>
  Scripts keep the invariants: from a good state whose dependency sets have no
  duplicates, every script over allocated literals ends in such a state, with the stack
  it started from.
\<close>

lemma scripts_keep_good:
  assumes "good P s" and "\<forall>t k. distinct (deps_of s t k)" and "list_all (op_ok s) cs"
    and "exec_ops (invoke n P) n cs s = Some (s', r)"
  shows "good P s' \<and> (\<forall>t k. distinct (deps_of s' t k)) \<and>
         activeEffectStack s' = activeEffectStack s"
proof -
  from good_exec_ops [OF keeps_invoke assms(1,3,4)] have "good P s'" by simp
  moreover from ok_exec_ops [OF sound_invoke assms(4)] assms(2)
  have "(\<forall>t k. distinct (deps_of s' t k)) \<and> activeEffectStack s' = activeEffectStack s"
    by (simp add: ok_def)
  ultimately show ?thesis by simp
qed

text \<open>
  Fuel is only a cut-off: an outcome reached with some fuel is the outcome with any
  larger amount.
\<close>

lemma forEach_mono:
  "le_call c c' \<Longrightarrow> n \<le> n' \<Longrightarrow> forEach c n t k i s = Some r \<Longrightarrow>
   forEach c' n' t k i s = Some r"
proof (induction n arbitrary: n' i s)
  case 0
  then show ?case by (cases n') (auto split: if_splits)
next
  case (Suc n)
  from Suc.prems(2) obtain m where n': "n' = Suc m" and m: "n \<le> m" by (cases n') auto
  show ?case
  proof (cases "i < length (deps_of s t k)")
    case False
    with Suc.prems(3) show ?thesis by (simp add: n')
  next
    case True
    with Suc.prems(3) obtain s1 r1 where c: "c (deps_of s t k ! i) s = Some (s1, r1)"
      by (auto split: option.splits)
    with Suc.prems(1) have c': "c' (deps_of s t k ! i) s = Some (s1, r1)"
      by (simp add: le_call_def)
    show ?thesis
    proof (cases r1)
      case (Inl x)
      with True c c' Suc.prems(3) show ?thesis by (auto simp: n')
    next
      case (Inr v)
      with True c Suc.prems(3) have "forEach c n t k (Suc i) s1 = Some r" by simp
      from Suc.IH [OF Suc.prems(1) m this] True c' Inr show ?thesis by (simp add: n')
    qed
  qed
qed

lemma proxy_set_mono:
  assumes "le_call c c'" and "n \<le> n'" and "proxy_set c n t k v s = Some r"
  shows "proxy_set c' n' t k v s = Some r"
proof -
  note m = forEach_mono [OF assms(1,2)]
  from assms(3) show ?thesis
    unfolding proxy_set_def Let_def trigger_forEach
    by (auto split: if_splits option.splits sum.splits dest!: m)
qed

lemma effect_mono:
  assumes "le_call c c'" and "effect c fn s = Some r"
  shows "effect c' fn s = Some r"
  using assms
  unfolding effect_def createReactiveEffect_def le_call_def
  by (fastforce split: option.splits sum.splits)

lemma exec_op_mono:
  assumes "le_call c c'" and "n \<le> n'" and "exec_op c n x s = Some r"
  shows "exec_op c' n' x s = Some r"
proof (cases x)
  case (SetProp e key e')
  note m = proxy_set_mono [OF assms(1,2)]
  from assms(3) show ?thesis
    unfolding SetProp
    by (auto split: val.splits option.splits obj.splits sum.splits dest!: m)
next
  case (Effect y fn)
  note m = effect_mono [OF assms(1)]
  from assms(3) show ?thesis
    unfolding Effect
    by (auto split: option.splits sum.splits dest!: m)
qed (use assms(3) in auto)

lemma exec_ops_mono:
  "le_call c c' \<Longrightarrow> n \<le> n' \<Longrightarrow> exec_ops c n cs s = Some r \<Longrightarrow>
   exec_ops c' n' cs s = Some r"
proof (induction cs arbitrary: s)
  case Nil
  then show ?case by simp
next
  case (Cons x cs)
  from Cons.prems(3) obtain s1 r1 where a: "exec_op c n x s = Some (s1, r1)"
    by (auto split: option.splits)
  from exec_op_mono [OF Cons.prems(1,2) a] have a': "exec_op c' n' x s = Some (s1, r1)" .
  show ?case
  proof (cases r1)
    case (Inl e)
    with a a' Cons.prems(3) show ?thesis by auto
  next
    case (Inr v)
    with a Cons.prems(3) have "exec_ops c n cs s1 = Some r" by simp
    from Cons.IH [OF Cons.prems(1,2) this] a' Inr show ?thesis by simp
  qed
qed

lemma run_mono:
  assumes "le_call c c'" and "n \<le> n'" and "run c n P e fn s = Some r"
  shows "run c' n' P e fn s = Some r"
proof -
  note m = exec_ops_mono [OF assms(1,2)]
  from assms(3) show ?thesis
    unfolding run_def
    by (auto split: option.splits sum.splits dest!: m)
qed

lemma invoke_mono: "n \<le> n' \<Longrightarrow> le_call (invoke n P) (invoke n' P)"
proof (induction n arbitrary: n')
  case 0
  show ?case by (simp add: le_call_def)
next
  case (Suc n)
  from Suc.prems obtain m where n': "n' = Suc m" and m: "n \<le> m" by (cases n') auto
  show ?case
    unfolding le_call_def n'
    by (auto split: if_splits dest: run_mono [OF Suc.IH [OF m] m])
qed

lemma more_fuel:
  assumes "n \<le> n'" and "exec_ops (invoke n P) n cs s = Some r"
  shows "exec_ops (invoke n' P) n' cs s = Some r"
  using exec_ops_mono [OF invoke_mono [OF assms(1)] assms] .

text \<open>
  Every step of the code leads to a later state: it only appends to dependency sets.
\<close>

lemma later_refl: "later s s"
  by (simp add: later_def)

lemma later_trans: "later s s1 \<Longrightarrow> later s1 s2 \<Longrightarrow> later s s2"
  unfolding later_def by (meson prefix_order.trans)

lemma ok_later: "ok s s' \<Longrightarrow> later s s'"
  by (simp add: ok_def later_def)

lemma later_push: "later s (push e fn s)"
  by (simp add: later_def push_def deps_of_def)

lemma later_pop: "later s (pop s)"
  by (simp add: later_def pop_def deps_of_def)

lemma later_proxy_get: "proxy_get s t k = Some (s', r) \<Longrightarrow> later s s'"
  by (rule ok_later) (rule ok_proxy_get)

lemma later_exec_ops: "exec_ops (invoke n P) n cs s = Some (s', r) \<Longrightarrow> later s s'"
  by (rule ok_later) (rule ok_exec_ops [OF sound_invoke])


text \<open>A write to a key without dependents returns what \<^verbatim>\<open>Reflect.set\<close> returns.\<close>

lemma proxy_set_no_deps:
  assumes "deps_of s t k = []" and "hasKey s t k = Inr own"
    and "Reflect_set s t k v = Some (s2, b)"
  shows "proxy_set call n t k v s = Some (s2, Inr (Bool b))"
proof -
  from assms(1) Reflect_set_deps [OF assms(3)] have "deps_of s2 t k = []" by simp
  then have tr: "trigger call n t ty k s2 = Some (s2, Inr Undefined)" for ty
    by (simp add: trigger_forEach forEach_no_deps)
  show ?thesis
  proof (cases own)
    case False
    with assms(2,3) tr show ?thesis by (simp add: proxy_set_def Let_def)
  next
    case True
    with hasKey_Inr [OF assms(2)] obtain old where "props s t k = Some old" by auto
    from Reflect_get_own [OF this] True assms(2,3) tr show ?thesis
      by (simp add: proxy_set_def Let_def)
  qed
qed

text \<open>After a read of \<open>k\<close> through the wrapper, \<^verbatim>\<open>Reflect.set\<close> on \<open>k\<close> gives a result.\<close>

lemma Reflect_set_after_get:
  assumes "proxy_get s t k = Some (s1, r)"
  shows "\<exists>s2 b. Reflect_set s1 t k v = Some (s2, b)"
proof -
  from assms obtain old where g: "Reflect_get s t k = Some old"
    by (auto simp: proxy_get_def split: option.splits)
  from assms have "heap s1 t = heap s t \<or> (\<exists>a. heap s1 t = Some (Proxy a))"
    by (rule proxy_get_Some)
      (auto simp: track_same reactive_def createReactiveObject_def Let_def
        split: option.splits if_splits)
  then show ?thesis
  proof
    assume "heap s1 t = heap s t"
    with g show ?thesis
      by (auto simp: Reflect_set_def Reflect_get_def props_def inherited_def
          Object_prototype_names_def split: option.splits obj.splits if_splits val.splits)
  next
    assume "\<exists>a. heap s1 t = Some (Proxy a)"
    then show ?thesis by (auto simp: Reflect_set_def)
  qed
qed

text \<open>Unfolding the model on a concrete input.\<close>

lemmas model_defs = init_def reactive_def createReactiveObject_def assign_def effect_def
  createReactiveEffect_def run_def push_def pop_def proxy_get_def proxy_set_def trigger_def
  track_def current_def deps_of_def Reflect_get_def Reflect_set_def Reflect_deleteProperty_def
  proxy_deleteProperty_def props_def hasKey_def isObject_def strict_neq_def Let_def
  inherited_def Object_prototype_names_def changes_def
  state_of_def result_of_def replayed_def obj_a1_def wrapped_a1_def readers_def thrower_def idle_def
  registered_def registered_thrower_def reading_b_def registered_b_def obj_nested_def
  nested_reader_def wrapped_nested_def registered_nested_def
  reads_only_def reading_a_def self_writer_def copier_def registered_copier_def thrower_b_def
  registered_thrower_b_def obj_shadowed_def registered_shadowed_def

section \<open>The claims\<close>




text \<open>
  Claim C2, with the runs that the callback starts itself. \<^verbatim>\<open>effect(fn)\<close> makes the
  handle \<open>length (effs s)\<close> and calls it at once: whenever \<open>effect\<close> returns or throws,
  the body \<open>P fn\<close> has been executed from the state in which the new handle was pushed,
  the state and the outcome of \<open>effect\<close> are those of that execution (after the pop),
  the first new call event is this run of \<open>fn\<close>, one level above the caller's stack, and
  it is the only new event at that level. Every other run before \<open>effect\<close> returns is
  nested in it; a callback that neither writes nor registers effects runs exactly once
  in all. The callback
  \<^verbatim>\<open>() => { x = p.a; p.a = 5 }\<close> of \<open>self_writer\<close> runs twice before \<open>effect\<close> returns:
  its write replays the handle that is running.
\<close>

theorem effect_runs_callback_once:
  assumes "effect (invoke n P) fn s = Some (s', r)"
  shows "\<exists>m s2 r2 evs. n = Suc m \<and>
          exec_ops (invoke m P) m (P fn)
            (push (length (effs s)) fn (fst (createReactiveEffect s fn))) = Some (s2, r2) \<and>
          s' = pop s2 \<and>
          r = (case r2 of Inl x \<Rightarrow> Inl x | Inr v \<Rightarrow> Inr Undefined) \<and>
          calls s' = calls s @
            \<lparr>ev_effect = length (effs s), ev_fn = fn,
             ev_depth = Suc (length (activeEffectStack s))\<rparr> # evs \<and>
          (\<forall>ev \<in> set evs. Suc (length (activeEffectStack s)) < ev_depth ev) \<and>
          (reads_only (P fn) \<longrightarrow> evs = [])"
proof -
  let ?s1 = "fst (createReactiveEffect s fn)"
  let ?e = "length (effs s)"
  have s1: "?s1 = s\<lparr>effs := effs s @ [fn]\<rparr>"
    by (simp add: createReactiveEffect_def)
  from assms obtain r1 where c: "invoke n P ?e ?s1 = Some (s', r1)"
    and r: "r = (case r1 of Inl x \<Rightarrow> Inl x | Inr v \<Rightarrow> Inr Undefined)"
    by (auto simp: effect_def createReactiveEffect_def split: option.splits sum.splits)
  then obtain m where n: "n = Suc m" by (cases n) auto
  with c have rn: "run (invoke m P) m P ?e fn ?s1 = Some (s', r1)" by (simp add: s1)
  then obtain s2 r2 where
    b: "exec_ops (invoke m P) m (P fn) (push ?e fn ?s1) = Some (s2, r2)" and s': "s' = pop s2"
    and r1: "r1 = (case r2 of Inl x \<Rightarrow> Inl x | Inr v \<Rightarrow> Inr Undefined)"
    by (auto simp: run_def split: option.splits sum.splits)
  from r r1 have r2: "r = (case r2 of Inl x \<Rightarrow> Inl x | Inr v \<Rightarrow> Inr Undefined)"
    by (cases r2) simp_all
  from run_event [OF sound_invoke rn] obtain evs where
    e: "calls s' = calls s @
            \<lparr>ev_effect = ?e, ev_fn = fn, ev_depth = Suc (length (activeEffectStack s))\<rparr> # evs"
    and d: "\<forall>ev \<in> set evs. Suc (length (activeEffectStack s)) < ev_depth ev"
    by (auto simp: s1)
  have "evs = []" if "reads_only (P fn)"
  proof -
    from exec_ops_quiet [OF that b] have "calls s' = calls (push ?e fn ?s1)"
      by (simp add: s' pop_def)
    with e show ?thesis by (simp add: push_def s1)
  qed
  with n b s' r2 e d show ?thesis by blast
qed

theorem effect_runs_callback_once_witness:
  "effect (invoke 1 readers) 0 wrapped_a1 =
     Some (state_of (effect (invoke 1 readers) 0 wrapped_a1), Inr Undefined) \<and>
   reads_only (readers 0) \<and>
   calls (state_of (effect (invoke 1 readers) 0 wrapped_a1)) =
     [\<lparr>ev_effect = 0, ev_fn = 0, ev_depth = 1\<rparr>] \<and>
   vars (state_of (effect (invoke 1 readers) 0 wrapped_a1)) ''x'' = Some (Num 1) \<and>
   deps_of wrapped_a1 0 ''a'' = [] \<and>
   deps_of (state_of (effect (invoke 1 readers) 0 wrapped_a1)) 0 ''a'' = [0]"
proof -
  have h: "effect (invoke 1 readers) 0 wrapped_a1 =
     Some (state_of (effect (invoke 1 readers) 0 wrapped_a1), Inr Undefined)"
    by (simp add: model_defs)
  have q: "reads_only (readers 0)"
    by (simp add: readers_def reads_only_def)
  have z: "calls wrapped_a1 = []" "effs wrapped_a1 = []" "activeEffectStack wrapped_a1 = []"
    by (simp_all add: model_defs)
  have b: "vars (state_of (effect (invoke 1 readers) 0 wrapped_a1)) ''x'' = Some (Num 1)"
    "deps_of wrapped_a1 0 ''a'' = []"
    "deps_of (state_of (effect (invoke 1 readers) 0 wrapped_a1)) 0 ''a'' = [0]"
    by (simp_all add: model_defs)
  from effect_runs_callback_once [OF h] q z
  have "calls (state_of (effect (invoke 1 readers) 0 wrapped_a1)) =
     [\<lparr>ev_effect = 0, ev_fn = 0, ev_depth = 1\<rparr>]"
    by auto
  with h q b show ?thesis by blast
qed

theorem effect_runs_callback_counterexample:
  "result_of (effect (invoke 2 self_writer) 0 wrapped_a1) = Some (Inr Undefined) \<and>
   calls wrapped_a1 = [] \<and>
   calls (state_of (effect (invoke 2 self_writer) 0 wrapped_a1)) =
     [\<lparr>ev_effect = 0, ev_fn = 0, ev_depth = 1\<rparr>, \<lparr>ev_effect = 0, ev_fn = 0, ev_depth = 2\<rparr>] \<and>
   length (filter (\<lambda>ev. ev_fn ev = 0)
     (calls (state_of (effect (invoke 2 self_writer) 0 wrapped_a1)))) = 2 \<and>
   props (state_of (effect (invoke 2 self_writer) 0 wrapped_a1)) 0 ''a'' = Some (Num 5)"
  by (simp add: model_defs eval_nat_numeral)




text \<open>
  Claim C4. In a well-formed state, for an object \<open>a\<close> of the heap, \<^verbatim>\<open>reactive\<close> returns
  the same wrapper when it is called again on \<open>a\<close> and when it is called on the wrapper,
  without changing the state; the wrapper is a proxy whose target is not a proxy; and
  the state stays well-formed. (Every script keeps the state well-formed, by
  \<open>scripts_keep_good\<close>.)
\<close>

theorem reactive_idempotent:
  assumes "wf s" and "heap s a \<noteq> None" and "reactive s (Ref a) = (s1, w)"
  shows "reactive s1 (Ref a) = (s1, w) \<and> reactive s1 w = (s1, w) \<and>
         (\<exists>p t. w = Ref p \<and> heap s1 p = Some (Proxy t) \<and> toRaw s1 t = None \<and>
            (\<forall>t'. heap s1 t \<noteq> Some (Proxy t'))) \<and>
         wf s1"
  using assms(3)
proof (cases rule: reactive_cases)
  case (known p)
  from known(1) have r: "toRaw s p = Some a" by (simp add: wf_registries(1) [OF assms(1)])
  note f = wf_proxy [OF assms(1) r] wf_not_proxy [OF assms(1) wf_proxy(2) [OF assms(1) r]]
  from r have h: "heap s p = Some (Proxy a)" by (simp add: wf_registries(2) [OF assms(1)])
  have 1: "reactive s (Ref a) = (s, Ref p)" and 2: "reactive s (Ref p) = (s, Ref p)"
    using known(1) r f(1) by (simp_all add: reactive_def createReactiveObject_def)
  from 1 2 h f assms(1) show ?thesis unfolding known(2,3) by blast
next
  case proxy
  then obtain t where r: "toRaw s a = Some t" by auto
  note f = wf_proxy [OF assms(1) r] wf_not_proxy [OF assms(1) wf_proxy(2) [OF assms(1) r]]
  from r have h: "heap s a = Some (Proxy t)" by (simp add: wf_registries(2) [OF assms(1)])
  have 1: "reactive s (Ref a) = (s, Ref a)"
    using proxy(1) r by (simp add: reactive_def createReactiveObject_def)
  from 1 h f assms(1) show ?thesis unfolding proxy(3,4) by blast
next
  case fresh
  note n = wf_nxt [OF assms(1)]
  from assms(2) have a: "a \<noteq> nxt s" using n(1) by auto
  from wf_fresh [OF assms(1,2) fresh(1,2)] fresh(4) have w: "wf s1" by simp
  have 1: "reactive s1 (Ref a) = (s1, Ref (nxt s))"
    unfolding fresh(4) by (simp add: reactive_def createReactiveObject_def)
  have 2: "reactive s1 (Ref (nxt s)) = (s1, Ref (nxt s))"
    unfolding fresh(4) using a n(2) by (simp add: reactive_def createReactiveObject_def)
  have 3: "heap s1 (nxt s) = Some (Proxy a)" "toRaw s1 a = None"
    unfolding fresh(4) using a fresh(2) by simp_all
  from wf_not_proxy [OF w 3(2)] have 4: "\<forall>t'. heap s1 a \<noteq> Some (Proxy t')" by blast
  from 1 2 3 4 w show ?thesis unfolding fresh(3) by blast
qed

theorem reactive_idempotent_witness:
  "wf obj_a1 \<and> heap obj_a1 0 \<noteq> None \<and>
   snd (reactive obj_a1 (Ref 0)) = Ref 1 \<and>
   reactive (fst (reactive obj_a1 (Ref 0))) (Ref 0) = (fst (reactive obj_a1 (Ref 0)), Ref 1) \<and>
   reactive (fst (reactive obj_a1 (Ref 0))) (Ref 1) = (fst (reactive obj_a1 (Ref 0)), Ref 1)"
proof -
  have h: "wf obj_a1" "heap obj_a1 0 \<noteq> None"
    by (simp_all add: wf_def model_defs)
  have sr: "snd (reactive obj_a1 (Ref 0)) = Ref 1"
    by (simp add: model_defs)
  then have r: "reactive obj_a1 (Ref 0) = (fst (reactive obj_a1 (Ref 0)), Ref 1)"
    by (simp add: prod_eq_iff)
  from reactive_idempotent [OF h r]
  have "reactive (fst (reactive obj_a1 (Ref 0))) (Ref 0) = (fst (reactive obj_a1 (Ref 0)), Ref 1) \<and>
    reactive (fst (reactive obj_a1 (Ref 0))) (Ref 1) = (fst (reactive obj_a1 (Ref 0)), Ref 1)"
    by blast
  with h sr show ?thesis by blast
qed

text \<open>
  Claim C5. With an empty stack of active computations \<^verbatim>\<open>track\<close> does nothing and a
  read through the wrapper leaves the dependency graph as it is. When nothing depended
  on \<open>(t, k)\<close> before the read, a write of \<open>k\<close> after it comes back without calling any
  computation and without a change of the dependency graph: it returns what
  \<^verbatim>\<open>Reflect.set\<close> returns, or throws the \<^verbatim>\<open>TypeError\<close> of \<^verbatim>\<open>hasKey\<close>. The instance
  below is \<^verbatim>\<open>o = {a: 1}\<close>, \<^verbatim>\<open>reactive(o).a\<close> at top level, then
  \<^verbatim>\<open>reactive(o).a = 2\<close>.
\<close>

theorem read_outside_computation_is_inert:
  assumes "activeEffectStack s = []" and "proxy_get s t k = Some (s1, r)"
  shows "track s t k = s \<and> targetMap s1 = targetMap s \<and> calls s1 = calls s \<and>
         (deps_of s t k = [] \<longrightarrow>
            (\<exists>s2 res. proxy_set (invoke n P) n t k v s1 = Some (s2, res) \<and>
               calls s2 = calls s \<and> targetMap s2 = targetMap s \<and>
               (case hasKey s1 t k of Inl x \<Rightarrow> res = Inl x
                | Inr own \<Rightarrow> (\<exists>b. res = Inr (Bool b)))))"
proof -
  from assms(1) have tr: "track s t k = s"
    by (simp add: track_def current_def)
  from assms(2) have tm: "targetMap s1 = targetMap s" and c: "calls s1 = calls s"
    by (rule proxy_get_Some; auto simp: tr dest!: reactive_same)+
  have "\<exists>s2 res. proxy_set (invoke n P) n t k v s1 = Some (s2, res) \<and>
               calls s2 = calls s \<and> targetMap s2 = targetMap s \<and>
               (case hasKey s1 t k of Inl x \<Rightarrow> res = Inl x
                | Inr own \<Rightarrow> (\<exists>b. res = Inr (Bool b)))"
    if "deps_of s t k = []"
  proof (cases "hasKey s1 t k")
    case (Inl x)
    from proxy_set_throws [OF this] Inl tm c show ?thesis by simp
  next
    case (Inr own)
    from that tm have d: "deps_of s1 t k = []" by (simp add: deps_of_def)
    from Reflect_set_after_get [OF assms(2)] obtain s2 b where
      w: "Reflect_set s1 t k v = Some (s2, b)" by blast
    from proxy_set_no_deps [OF d Inr w] Reflect_set_same [OF w] Inr tm c show ?thesis by simp
  qed
  with tr tm c show ?thesis by blast
qed

theorem read_outside_computation_is_inert_witness:
  "activeEffectStack wrapped_a1 = [] \<and> deps_of wrapped_a1 0 ''a'' = [] \<and>
   proxy_get wrapped_a1 0 ''a'' = Some (wrapped_a1, Num 1) \<and>
   targetMap wrapped_a1 = Map.empty \<and>
   result_of (proxy_set (invoke 1 readers) 1 0 ''a'' (Num 2) wrapped_a1) = Some (Inr (Bool True)) \<and>
   calls (state_of (proxy_set (invoke 1 readers) 1 0 ''a'' (Num 2) wrapped_a1)) = [] \<and>
   targetMap (state_of (proxy_set (invoke 1 readers) 1 0 ''a'' (Num 2) wrapped_a1)) = Map.empty"
proof -
  have h: "activeEffectStack wrapped_a1 = []" "proxy_get wrapped_a1 0 ''a'' = Some (wrapped_a1, Num 1)"
    by (simp_all add: model_defs)
  have d: "deps_of wrapped_a1 0 ''a'' = []" "targetMap wrapped_a1 = Map.empty" "calls wrapped_a1 = []"
    by (simp_all add: model_defs)
  have r: "result_of (proxy_set (invoke 1 readers) 1 0 ''a'' (Num 2) wrapped_a1) = Some (Inr (Bool True))"
    by (simp add: model_defs)
  from read_outside_computation_is_inert [OF h, of 1 readers "Num 2"] d
  have "calls (state_of (proxy_set (invoke 1 readers) 1 0 ''a'' (Num 2) wrapped_a1)) = [] \<and>
    targetMap (state_of (proxy_set (invoke 1 readers) 1 0 ''a'' (Num 2) wrapped_a1)) = Map.empty"
    by (auto simp: state_of_def)
  with h d r show ?thesis by blast
qed



text \<open>
  Claim C7. \<^verbatim>\<open>run\<close> pushes the handle before the callback runs (the body is executed
  from \<open>push e fn s\<close>), and on every exit path the stack is what it was before the run;
  an exception of the callback is the outcome of \<open>run\<close>, after the pop.
\<close>

theorem run_restores_stack:
  "activeEffectStack (push e fn s) = activeEffectStack s @ [e] \<and>
   (\<forall>s' r. run (invoke n P) n P e fn s = Some (s', r) \<longrightarrow>
      activeEffectStack s' = activeEffectStack s) \<and>
   (\<forall>s1 x. exec_ops (invoke n P) n (P fn) (push e fn s) = Some (s1, Inl x) \<longrightarrow>
      run (invoke n P) n P e fn s = Some (pop s1, Inl x) \<and>
      activeEffectStack (pop s1) = activeEffectStack s)"
proof (intro conjI allI impI)
  show "activeEffectStack (push e fn s) = activeEffectStack s @ [e]"
    by (simp add: push_def)
next
  fix s' r
  assume "run (invoke n P) n P e fn s = Some (s', r)"
  from ok_run [OF sound_invoke this] show "activeEffectStack s' = activeEffectStack s"
    by (simp add: ok_def)
next
  fix s1 x
  assume b: "exec_ops (invoke n P) n (P fn) (push e fn s) = Some (s1, Inl x)"
  then show r: "run (invoke n P) n P e fn s = Some (pop s1, Inl x)"
    by (simp add: run_def)
  from ok_run [OF sound_invoke r] show "activeEffectStack (pop s1) = activeEffectStack s"
    by (simp add: ok_def)
qed

theorem run_restores_stack_witness:
  "run (invoke 1 thrower) 1 thrower 0 0 wrapped_a1 =
     Some (state_of (run (invoke 1 thrower) 1 thrower 0 0 wrapped_a1), Inl (Thrown (Str ''boom''))) \<and>
   activeEffectStack (state_of (run (invoke 1 thrower) 1 thrower 0 0 wrapped_a1)) =
     activeEffectStack wrapped_a1 \<and>
   activeEffectStack wrapped_a1 = []"
proof -
  have h: "run (invoke 1 thrower) 1 thrower 0 0 wrapped_a1 =
     Some (state_of (run (invoke 1 thrower) 1 thrower 0 0 wrapped_a1), Inl (Thrown (Str ''boom'')))"
    by (simp add: model_defs)
  have e: "activeEffectStack wrapped_a1 = []"
    by (simp add: model_defs)
  from run_restores_stack [of 0 0 wrapped_a1 1 thrower] h e show ?thesis
    by blast
qed

text \<open>
  Claim C8, with the return value of the code. \<^verbatim>\<open>effect(fn)\<close> creates the handle
  with \<^verbatim>\<open>createReactiveEffect\<close>, which returns to \<open>effect\<close> the closure that runs
  \<open>fn\<close>, and calls it; \<open>effect\<close> itself has no \<^verbatim>\<open>return\<close> statement, so a call that
  returns gives \<^verbatim>\<open>undefined\<close> to its caller and not the handle. After
  \<^verbatim>\<open>h = effect(cb)\<close> the variable \<open>h\<close> holds \<^verbatim>\<open>undefined\<close>.
\<close>

theorem effect_returns_undefined:
  assumes "effect (invoke n P) fn s = Some (s', Inr v)"
  shows "v = Undefined \<and>
         snd (createReactiveEffect s fn) = length (effs s) \<and>
         effs (fst (createReactiveEffect s fn)) ! length (effs s) = fn \<and>
         (\<exists>evs. calls s' = calls s @
            \<lparr>ev_effect = length (effs s), ev_fn = fn,
             ev_depth = Suc (length (activeEffectStack s))\<rparr> # evs)"
proof -
  from assms have "v = Undefined"
    by (auto simp: effect_def createReactiveEffect_def split: option.splits sum.splits)
  moreover have "snd (createReactiveEffect s fn) = length (effs s)"
    "effs (fst (createReactiveEffect s fn)) ! length (effs s) = fn"
    by (simp_all add: createReactiveEffect_def)
  moreover have "\<exists>evs. calls s' = calls s @
            \<lparr>ev_effect = length (effs s), ev_fn = fn,
             ev_depth = Suc (length (activeEffectStack s))\<rparr> # evs"
  proof -
    let ?s1 = "s\<lparr>effs := effs s @ [fn]\<rparr>"
    from assms obtain r1 where "invoke n P (length (effs s)) ?s1 = Some (s', r1)"
      by (auto simp: effect_def createReactiveEffect_def split: option.splits sum.splits)
    from invoke_event [OF this] show ?thesis by auto
  qed
  ultimately show ?thesis by blast
qed

theorem effect_returns_undefined_witness:
  "effect (invoke 1 idle) 0 init = Some (state_of (effect (invoke 1 idle) 0 init), Inr Undefined) \<and>
   snd (createReactiveEffect init 0) = 0 \<and>
   map ev_fn (calls (state_of (effect (invoke 1 idle) 0 init))) = [0]"
proof -
  have h: "effect (invoke 1 idle) 0 init =
      Some (state_of (effect (invoke 1 idle) 0 init), Inr Undefined)"
    by (simp add: model_defs)
  have c: "map ev_fn (calls (state_of (effect (invoke 1 idle) 0 init))) = [0]"
    by (simp add: model_defs)
  from effect_returns_undefined [OF h] h c show ?thesis
    by (simp add: init_def)
qed

theorem effect_returns_handle_counterexample:
  "result_of (effect (invoke 1 idle) 0 init) = Some (Inr Undefined) \<and>
   snd (createReactiveEffect init 0) = 0 \<and>
   effs (state_of (effect (invoke 1 idle) 0 init)) = [0] \<and>
   result_of (exec_op (invoke 1 idle) 1 (Effect ''h'' 0) init) = Some (Inr Undefined) \<and>
   vars (state_of (exec_op (invoke 1 idle) 1 (Effect ''h'' 0) init)) ''h'' = Some Undefined"
  by (simp add: model_defs)

text \<open>
  Claim C9. Deleting a key through the wrapper removes it from the raw object, logs
  \<^verbatim>\<open>delete\<close> and calls nothing, whatever \<open>call\<close> and the dependency graph are.
\<close>

theorem delete_never_replays:
  assumes "eval s e = Ref p" and "heap s p = Some (Proxy t)" and "heap s t = Some (Plain m)"
  shows "\<exists>s'. exec_op call n (DelProp e k) s = Some (s', Inr Undefined) \<and>
           heap s' t = Some (Plain (m(k := None))) \<and>
           calls s' = calls s \<and> targetMap s' = targetMap s \<and>
           activeEffectStack s' = activeEffectStack s \<and>
           console s' = console s @ [''delete'']"
  using assms
  by (simp add: proxy_deleteProperty_def Reflect_deleteProperty_def)

theorem delete_never_replays_witness:
  "eval registered (Var ''p'') = Ref 1 \<and> heap registered 1 = Some (Proxy 0) \<and>
   heap registered 0 = Some (Plain [''a'' \<mapsto> Num 1]) \<and>
   deps_of registered 0 ''a'' = [0, 1] \<and>
   replayed registered (exec_op (invoke 2 readers) 2 (DelProp (Var ''p'') ''a'') registered) = [] \<and>
   props (state_of (exec_op (invoke 2 readers) 2 (DelProp (Var ''p'') ''a'') registered)) 0 ''a'' = None"
proof -
  have h: "eval registered (Var ''p'') = Ref 1" "heap registered 1 = Some (Proxy 0)"
    "heap registered 0 = Some (Plain [''a'' \<mapsto> Num 1])"
    by (simp_all add: model_defs)
  have d: "deps_of registered 0 ''a'' = [0, 1]"
    by (simp add: model_defs)
  from delete_never_replays [OF h, of "invoke 2 readers" 2 "''a''"] h d show ?thesis
    by (auto simp: replayed_def state_of_def props_def)
qed




end
